theory Spec2Isabelle
  imports Main "HOL-Library.Sublist" "HOL-Library.Char_ord" "HOL-Library.List_Lexorder"
begin

section \<open>The Db2 metadata manager (main.py)\<close>

text \<open>
  The program is a command shell over one table, \<open>metadata(key, value)\<close>, reached through
  the \<open>ibm_db\<close> driver. The driver and the database are not part of the repository; they
  are modelled here as a world the program acts on:
  \<^item> \<open>table\<close>: the rows of table \<open>metadata\<close> in storage order, \<open>None\<close> while the table
    does not exist. Rows are kept as a list, so that a duplicate key is representable and
    "one row per key" is a property to prove, not a consequence of the type;
  \<^item> \<open>faults\<close>: what the driver does on its next calls, one entry per call: \<open>None\<close>, the
    call goes through; \<open>Some e\<close>, the call raises \<open>e\<close>. Past the end of the list every
    call goes through. This is how a transient backend fault, a rejected statement or an
    interrupt during a call enters the model;
  \<^item> \<open>trace\<close>: everything observable the program did, in order: lines printed, prompts
    shown, driver functions called.

  A Python \<open>str\<close> is a \<open>string\<close>; one \<open>char\<close> stands for one character of the
  \<open>str\<close> (a code point below 256), so \<open>length\<close> is Python's \<open>len\<close>.
\<close>

subsection \<open>Exceptions, results, the world\<close>

datatype exn =
    KeyboardInterrupt
  | EOFError
  | IndexError
  | KeyError string
  | Exception string

text \<open>\<open>except Exception\<close> catches everything here but \<open>KeyboardInterrupt\<close>.\<close>

fun is_Exception :: "exn \<Rightarrow> bool" where
  "is_Exception KeyboardInterrupt = False"
| "is_Exception _ = True"

definition apos :: string where
  "apos = [CHR 0x27]"

text \<open>\<open>str(e)\<close>.\<close>

fun str_exn :: "exn \<Rightarrow> string" where
  "str_exn KeyboardInterrupt = []"
| "str_exn EOFError = []"
| "str_exn IndexError = ''list index out of range''"
| "str_exn (KeyError k) = apos @ k @ apos"
| "str_exn (Exception msg) = msg"

datatype api = Connect | ExecImmediate | Prepare | BindParam | Execute | FetchAssoc | Close

datatype event = Print string | Prompt string | Call api

type_synonym row = "string \<times> string"

record world =
  table :: "row list option"
  faults :: "exn option list"
  trace :: "event list"

datatype 'a res = Ok 'a world | Raise exn world

type_synonym 'a prog = "world \<Rightarrow> 'a res"

definition bnd :: "'a prog \<Rightarrow> ('a \<Rightarrow> 'b prog) \<Rightarrow> 'b prog" where
  "bnd m f w = (case m w of Ok x w' \<Rightarrow> f x w' | Raise e w' \<Rightarrow> Raise e w')"

text \<open>The world a computation ends in, however it ends.\<close>

fun final :: "'a res \<Rightarrow> world" where
  "final (Ok x w) = w"
| "final (Raise e w) = w"

definition print_line :: "string \<Rightarrow> world \<Rightarrow> world" where
  "print_line s w = w\<lparr>trace := trace w @ [Print s]\<rparr>"

definition say :: "string \<Rightarrow> unit prog" where
  "say s w = Ok () (print_line s w)"

subsection \<open>The driver\<close>

text \<open>One call of a driver function: logged, and failing if the backend says so.\<close>

definition driver :: "api \<Rightarrow> unit prog" where
  "driver a w =
     (case faults w of
        [] \<Rightarrow> Ok () (w\<lparr>trace := trace w @ [Call a]\<rparr>)
      | None # fs \<Rightarrow> Ok () (w\<lparr>faults := fs, trace := trace w @ [Call a]\<rparr>)
      | Some e # fs \<Rightarrow> Raise e (w\<lparr>faults := fs, trace := trace w @ [Call a]\<rparr>))"

text \<open>
  The six SQL statements of the program, by the function that issues them:
  \<^item> \<open>CreateTable\<close>: \<^verbatim>\<open>CREATE TABLE IF NOT EXISTS metadata (key VARCHAR(80) NOT NULL PRIMARY KEY, value VARCHAR(200) NOT NULL)\<close>
  \<^item> \<open>Merge\<close>: \<^verbatim>\<open>MERGE INTO metadata AS tgt USING (VALUES (?, ?)) AS src (key, value) ON tgt.key = src.key WHEN MATCHED THEN UPDATE SET tgt.value = src.value WHEN NOT MATCHED THEN INSERT (key, value) VALUES (src.key, src.value)\<close>
  \<^item> \<open>SelectValue\<close>: \<^verbatim>\<open>SELECT value FROM metadata WHERE key = ?\<close>
  \<^item> \<open>Delete\<close>: \<^verbatim>\<open>DELETE FROM metadata WHERE key = ?\<close>
  \<^item> \<open>SelectAll\<close>: \<^verbatim>\<open>SELECT key, value FROM metadata ORDER BY key\<close>
  \<^item> \<open>SelectLike\<close>: \<^verbatim>\<open>SELECT key, value FROM metadata WHERE key LIKE ? ORDER BY key\<close>
\<close>

datatype sql = CreateTable | Merge | SelectValue | Delete | SelectAll | SelectLike

text \<open>A fetched row is a dictionary from upper-case column names to values.\<close>

type_synonym dict = "(string \<times> string) list"

text \<open>The dictionary of a row of \<open>SELECT key, value\<close>.\<close>

definition kv :: "row \<Rightarrow> dict" where
  "kv r = [(''KEY'', fst r), (''VALUE'', snd r)]"

text \<open>
  SQL \<open>LIKE\<close> without an \<open>ESCAPE\<close> clause: \<open>%\<close> stands for any run of characters, \<open>_\<close>
  for any one character, every other character for itself.
\<close>

fun like :: "string \<Rightarrow> string \<Rightarrow> bool" where
  "like [] [] = True"
| "like (c # cs) [] = False"
| "like [] (p # ps) = (p = CHR ''%'' \<and> like [] ps)"
| "like (c # cs) (p # ps) =
     (if p = CHR ''%'' then like (c # cs) ps \<or> like cs (p # ps)
      else (p = CHR ''_'' \<or> p = c) \<and> like cs ps)"

text \<open>\<open>MERGE\<close>: every row with the key takes the new value; with no such row, one is inserted.\<close>

definition merge_rows :: "string \<Rightarrow> string \<Rightarrow> row list \<Rightarrow> row list" where
  "merge_rows k v rows =
     (if k \<in> set (map fst rows)
      then map (\<lambda>r. if fst r = k then (fst r, v) else r) rows
      else rows @ [(k, v)])"

definition undefined_name :: exn where
  "undefined_name = Exception ''SQL0204N  METADATA is an undefined name.  SQLSTATE=42704 SQLCODE=-204''"

definition unbound_parameter :: exn where
  "unbound_parameter = Exception ''CLI0100E  Wrong number of parameters. SQLSTATE=07001''"

text \<open>
  What a statement does to the table and what result set it leaves, given its bound
  parameters (numbered from 1). \<open>ORDER BY key\<close> is a stable sort on the key.
\<close>

definition exec_sql :: "sql \<Rightarrow> (nat \<times> string) list \<Rightarrow> row list option \<Rightarrow> exn + (row list option \<times> dict list)" where
  "exec_sql q ps t =
     (case q of
        CreateTable \<Rightarrow>
          (case t of None \<Rightarrow> Inr (Some [], []) | Some rows \<Rightarrow> Inr (Some rows, []))
      | Merge \<Rightarrow>
          (case t of None \<Rightarrow> Inl undefined_name | Some rows \<Rightarrow>
            (case (map_of ps 1, map_of ps 2) of
               (Some k, Some v) \<Rightarrow> Inr (Some (merge_rows k v rows), [])
             | _ \<Rightarrow> Inl unbound_parameter))
      | SelectValue \<Rightarrow>
          (case t of None \<Rightarrow> Inl undefined_name | Some rows \<Rightarrow>
            (case map_of ps 1 of
               Some k \<Rightarrow> Inr (Some rows, map (\<lambda>r. [(''VALUE'', snd r)]) (filter (\<lambda>r. fst r = k) rows))
             | None \<Rightarrow> Inl unbound_parameter))
      | Delete \<Rightarrow>
          (case t of None \<Rightarrow> Inl undefined_name | Some rows \<Rightarrow>
            (case map_of ps 1 of
               Some k \<Rightarrow> Inr (Some (filter (\<lambda>r. fst r \<noteq> k) rows), [])
             | None \<Rightarrow> Inl unbound_parameter))
      | SelectAll \<Rightarrow>
          (case t of None \<Rightarrow> Inl undefined_name | Some rows \<Rightarrow>
            Inr (Some rows, map kv (sort_key fst rows)))
      | SelectLike \<Rightarrow>
          (case t of None \<Rightarrow> Inl undefined_name | Some rows \<Rightarrow>
            (case map_of ps 1 of
               Some p \<Rightarrow> Inr (Some rows, map kv
                                   (sort_key fst (filter (\<lambda>r. like (fst r) p) rows)))
             | None \<Rightarrow> Inl unbound_parameter)))"

text \<open>A statement handle: the statement, its bound parameters, the rows not yet fetched.\<close>

record stmt =
  query :: sql
  params :: "(nat \<times> string) list"
  cursor :: "dict list"

definition run :: "stmt \<Rightarrow> stmt prog" where
  "run st w =
     (case exec_sql (query st) (params st) (table w) of
        Inl e \<Rightarrow> Raise e w
      | Inr (t, rs) \<Rightarrow> Ok (st\<lparr>cursor := rs\<rparr>) (w\<lparr>table := t\<rparr>))"

definition prepare :: "sql \<Rightarrow> stmt prog" where
  "prepare q = bnd (driver Prepare) (\<lambda>_. Ok \<lparr>query = q, params = [], cursor = []\<rparr>)"

definition bind_param :: "stmt \<Rightarrow> nat \<Rightarrow> string \<Rightarrow> stmt prog" where
  "bind_param st i v = bnd (driver BindParam) (\<lambda>_. Ok (st\<lparr>params := (i, v) # params st\<rparr>))"

definition execute :: "stmt \<Rightarrow> stmt prog" where
  "execute st = bnd (driver Execute) (\<lambda>_. run st)"

definition exec_immediate :: "sql \<Rightarrow> stmt prog" where
  "exec_immediate q = bnd (driver ExecImmediate) (\<lambda>_. run \<lparr>query = q, params = [], cursor = []\<rparr>)"

text \<open>\<open>fetch_assoc\<close> returns the next row, or \<open>False\<close> (here \<open>None\<close>) when none is left.\<close>

definition fetch_assoc :: "stmt \<Rightarrow> (dict option \<times> stmt) prog" where
  "fetch_assoc st =
     bnd (driver FetchAssoc) (\<lambda>_.
       case cursor st of
         [] \<Rightarrow> Ok (None, st)
       | d # ds \<Rightarrow> Ok (Some d, st\<lparr>cursor := ds\<rparr>))"

text \<open>\<open>row[name]\<close>.\<close>

definition getitem :: "dict \<Rightarrow> string \<Rightarrow> string prog" where
  "getitem d name w = (case map_of d name of Some v \<Rightarrow> Ok v w | None \<Rightarrow> Raise (KeyError name) w)"

subsection \<open>CRUD operations\<close>

text \<open>
  The functions take the connection as their first argument and hand it to the driver;
  there is one connection, and the world stands for what is behind it.
\<close>

definition set_key :: "string \<Rightarrow> string \<Rightarrow> unit prog" where
  "set_key key val =
     (if length key > 80 then
        say (''[ERROR] Key too long (max 80 chars): '' @ apos @ key @ apos)
      else if length val > 200 then
        say (''[ERROR] Value too long (max 200 chars): '' @ apos @ val @ apos)
      else
        bnd (prepare Merge) (\<lambda>st.
        bnd (bind_param st 1 key) (\<lambda>st.
        bnd (bind_param st 2 val) (\<lambda>st.
        bnd (execute st) (\<lambda>st.
        say (''[OK] Set  '' @ apos @ key @ apos @ '' = '' @ apos @ val @ apos))))))"

definition get_key :: "string \<Rightarrow> string option prog" where
  "get_key key =
     bnd (prepare SelectValue) (\<lambda>st.
     bnd (bind_param st 1 key) (\<lambda>st.
     bnd (execute st) (\<lambda>st.
     bnd (fetch_assoc st) (\<lambda>(r, st).
       case r of
         Some d \<Rightarrow> bnd (getitem d ''VALUE'') (\<lambda>v. Ok (Some v))
       | None \<Rightarrow> Ok None))))"

definition delete_key :: "string \<Rightarrow> unit prog" where
  "delete_key key =
     bnd (prepare Delete) (\<lambda>st.
     bnd (bind_param st 1 key) (\<lambda>st.
     bnd (execute st) (\<lambda>st.
     say (''[OK] Deleted key '' @ apos @ key @ apos))))"

text \<open>
  The \<open>while row:\<close> loop of \<open>list_all\<close> and \<open>search_keys\<close>, entered with the row just
  fetched: a fetched row is a non-empty dictionary, hence true; \<open>False\<close> ends the loop.
\<close>

function while_row :: "dict option \<Rightarrow> stmt \<Rightarrow> row list \<Rightarrow> row list prog" where
  "while_row None st rows w = Ok rows w"
| "while_row (Some d) st rows w =
     (case getitem d ''KEY'' w of
        Raise e w1 \<Rightarrow> Raise e w1
      | Ok k w1 \<Rightarrow>
          (case getitem d ''VALUE'' w1 of
             Raise e w2 \<Rightarrow> Raise e w2
           | Ok v w2 \<Rightarrow>
               (case fetch_assoc st w2 of
                  Raise e w3 \<Rightarrow> Raise e w3
                | Ok (r, st') w3 \<Rightarrow> while_row r st' (rows @ [(k, v)]) w3)))"
  by pat_completeness auto
termination
  by (relation "measure (\<lambda>(r, st, rows, w). case r of None \<Rightarrow> 0 | Some _ \<Rightarrow> Suc (length (cursor st)))")
     (auto simp: fetch_assoc_def bnd_def driver_def split: list.splits option.splits)

definition list_all_db :: "row list prog" where
  "list_all_db =
     bnd (exec_immediate SelectAll) (\<lambda>st.
     bnd (fetch_assoc st) (\<lambda>(r, st).
     while_row r st []))"

definition search_keys :: "string \<Rightarrow> row list prog" where
  "search_keys pattern =
     bnd (prepare SelectLike) (\<lambda>st.
     bnd (bind_param st 1 pattern) (\<lambda>st.
     bnd (execute st) (\<lambda>st.
     bnd (fetch_assoc st) (\<lambda>(r, st).
     while_row r st []))))"

subsection \<open>Display helpers\<close>

definition digit :: "nat \<Rightarrow> char" where
  "digit n = char_of (48 + n)"

function str_nat :: "nat \<Rightarrow> string" where
  "str_nat n = (if n < 10 then [digit n] else str_nat (n div 10) @ [digit (n mod 10)])"
  by pat_completeness auto
termination
  by (relation "measure id") auto

text \<open>\<open>f"{s:<{n}}"\<close>: the string, padded with spaces on the right to width \<open>n\<close>.\<close>

definition ljust :: "nat \<Rightarrow> string \<Rightarrow> string" where
  "ljust n s = s @ replicate (n - length s) CHR '' ''"

definition max_len :: "string list \<Rightarrow> nat" where
  "max_len xs = foldr max (map length xs) 0"

definition print_table :: "row list \<Rightarrow> world \<Rightarrow> world" where
  "print_table rows w =
     (if rows = [] then print_line ''  (no records found)'' w
      else
        let key_w = max (max_len (map fst rows)) 4;
            val_w = max (max_len (map snd rows)) 5;
            sep = ''  +'' @ replicate (key_w + 2) CHR ''-'' @ ''+'' @ replicate (val_w + 2) CHR ''-'' @ ''+''
        in foldl (\<lambda>w s. print_line s w) w
             ([sep, ''  | '' @ ljust key_w ''KEY'' @ '' | '' @ ljust val_w ''VALUE'' @ '' |'', sep]
              @ map (\<lambda>(k, v). ''  | '' @ ljust key_w k @ '' | '' @ ljust val_w v @ '' |'') rows
              @ [sep, ''  '' @ str_nat (length rows) @ '' row(s)\<newline>'']))"

definition help_text :: string where
  "help_text =
     ''\<newline>Commands:\<newline>''
     @ ''  set  <key> <value>   Insert or update a key/value pair\<newline>''
     @ ''  get  <key>           Retrieve value for a key\<newline>''
     @ ''  del  <key>           Delete a key\<newline>''
     @ ''  list                 List all key/value pairs\<newline>''
     @ ''  find <pattern>       Search keys by LIKE pattern (e.g.  app.%)\<newline>''
     @ ''  help                 Show this help\<newline>''
     @ ''  exit                 Quit\<newline>''"

definition print_help :: "world \<Rightarrow> world" where
  "print_help = print_line help_text"

subsection \<open>Strings: \<open>strip\<close>, \<open>split\<close>, \<open>lower\<close>, \<open>in\<close>\<close>

text \<open>\<open>str.isspace\<close> on one character below 256.\<close>

definition is_space :: "char \<Rightarrow> bool" where
  "is_space c =
     (let n = (of_char c :: nat)
      in (9 \<le> n \<and> n \<le> 13) \<or> (28 \<le> n \<and> n \<le> 32) \<or> n = 133 \<or> n = 160)"

definition strip :: "string \<Rightarrow> string" where
  "strip s = rev (dropWhile is_space (rev (dropWhile is_space s)))"

text \<open>
  \<open>s.split(maxsplit=n)\<close>: up to \<open>n\<close> words are cut off at runs of whitespace; what is
  left after them, less its leading whitespace, is the last part.
\<close>

fun split_ws :: "nat \<Rightarrow> string \<Rightarrow> string list" where
  "split_ws 0 s = (let r = dropWhile is_space s in if r = [] then [] else [r])"
| "split_ws (Suc n) s =
     (let r = dropWhile is_space s
      in if r = [] then []
         else takeWhile (\<lambda>c. \<not> is_space c) r # split_ws n (dropWhile (\<lambda>c. \<not> is_space c) r))"

definition lower_char :: "char \<Rightarrow> char" where
  "lower_char c =
     (let n = (of_char c :: nat)
      in if (65 \<le> n \<and> n \<le> 90) \<or> (192 \<le> n \<and> n \<le> 222 \<and> n \<noteq> 215) then char_of (n + 32) else c)"

definition lower :: "string \<Rightarrow> string" where
  "lower s = map lower_char s"

text \<open>\<open>sub in s\<close>.\<close>

fun contains :: "string \<Rightarrow> string \<Rightarrow> bool" where
  "contains sub [] = (sub = [])"
| "contains sub (c # cs) = (prefix sub (c # cs) \<or> contains sub cs)"

subsection \<open>The command loop\<close>

text \<open>What one pass of the loop body ends in: the next pass, or \<open>break\<close>.\<close>

datatype flow = Continue | Break

text \<open>The body of the loop from \<open>parts = line.split(maxsplit=2)\<close> on.\<close>

definition dispatch :: "string list \<Rightarrow> flow prog" where
  "dispatch parts w =
     (case parts of
        [] \<Rightarrow> Raise IndexError w
      | p0 # _ \<Rightarrow>
          let cmd = lower p0 in
          if cmd = ''exit'' \<or> cmd = ''quit'' \<or> cmd = ''q'' then Ok Break w
          else if cmd = ''help'' then Ok Continue (print_help w)
          else if cmd = ''set'' then
            (if length parts < 3 then Ok Continue (print_line ''[ERROR] Usage: set <key> <value>'' w)
             else bnd (set_key (parts ! 1) (parts ! 2)) (\<lambda>_. Ok Continue) w)
          else if cmd = ''get'' then
            (if length parts < 2 then Ok Continue (print_line ''[ERROR] Usage: get <key>'' w)
             else bnd (get_key (parts ! 1)) (\<lambda>val w.
                    case val of
                      None \<Rightarrow> Ok Continue (print_line (''  (key '' @ apos @ parts ! 1 @ apos @ '' not found)'') w)
                    | Some v \<Rightarrow> Ok Continue (print_line (''  '' @ parts ! 1 @ '' = '' @ v) w)) w)
          else if cmd = ''del'' then
            (if length parts < 2 then Ok Continue (print_line ''[ERROR] Usage: del <key>'' w)
             else bnd (delete_key (parts ! 1)) (\<lambda>_. Ok Continue) w)
          else if cmd = ''list'' then
            bnd list_all_db (\<lambda>rows w. Ok Continue (print_table rows w)) w
          else if cmd = ''find'' then
            (if length parts < 2 then Ok Continue (print_line ''[ERROR] Usage: find <pattern>  e.g.  find app.%'' w)
             else bnd (search_keys (parts ! 1)) (\<lambda>rows w. Ok Continue (print_table rows w)) w)
          else Ok Continue (print_line (''[ERROR] Unknown command '' @ apos @ cmd @ apos @ ''. Type '' @ apos @ ''help'' @ apos @ ''.'') w))"

text \<open>
  What \<open>input("db2-meta> ")\<close> does, one entry per call: it returns a line, or raises
  \<open>EOFError\<close> or \<open>KeyboardInterrupt\<close>. Past the end of the list the input has ended.
\<close>

datatype inp = Line string | Eof | Interrupt

definition prompt :: "world \<Rightarrow> world" where
  "prompt w = w\<lparr>trace := trace w @ [Prompt ''db2-meta> '']\<rparr>"

fun repl_loop :: "inp list \<Rightarrow> unit prog" where
  "repl_loop [] w = Ok () (prompt w)"
| "repl_loop (Eof # rest) w = Ok () (prompt w)"
| "repl_loop (Interrupt # rest) w = Ok () (prompt w)"
| "repl_loop (Line l # rest) w =
     (if strip l = [] then repl_loop rest (prompt w)
      else
        (case dispatch (split_ws 2 (strip l)) (prompt w) of
           Raise e w' \<Rightarrow> Raise e w'
         | Ok Break w' \<Rightarrow> Ok () w'
         | Ok Continue w' \<Rightarrow> repl_loop rest w'))"

definition repl :: "inp list \<Rightarrow> unit prog" where
  "repl inputs =
     bnd (say (''Db2 Metadata Manager  |  type '' @ apos @ ''help'' @ apos @ '' for commands\<newline>''))
       (\<lambda>_. repl_loop inputs)"

subsection \<open>The connection\<close>

record DatabaseConfig =
  host :: string
  database :: string
  uid :: string
  port :: string
  ssl_cert :: string
  dsn :: string

definition config_print :: "DatabaseConfig \<Rightarrow> world \<Rightarrow> world" where
  "config_print c w =
     foldl (\<lambda>w s. print_line s w) w
       [''Database connection settings:'',
        ''  Host: '' @ host c,
        ''  Port: '' @ port c,
        ''  Database: '' @ database c,
        ''  User: '' @ uid c,
        ''  SSL Path: '' @ ssl_cert c]"

text \<open>\<open>DB2Connections._create_table_if_not_exists\<close>.\<close>

definition create_table_if_not_exists :: "unit prog" where
  "create_table_if_not_exists w =
     (case bnd (exec_immediate CreateTable) (\<lambda>_. say (''[OK] Table '' @ apos @ ''metadata'' @ apos @ '' is ready.\<newline>'')) w of
        Ok u w1 \<Rightarrow> Ok u w1
      | Raise e w1 \<Rightarrow>
          if is_Exception e then
            (if contains ''-601'' (str_exn e)
             then say (''[OK] Table '' @ apos @ ''metadata'' @ apos @ '' already exists.\<newline>'') w1
             else Raise e w1)
          else Raise e w1)"

text \<open>\<open>DB2Connections.__enter__\<close>.\<close>

definition DB2Connections_enter :: "string \<Rightarrow> unit prog" where
  "DB2Connections_enter dsn_config w =
     (case bnd (say ''[OK] Connecting to DB2'') (\<lambda>_.
           bnd (driver Connect) (\<lambda>_.
           bnd (say ''[OK] Connected to Db2.\<newline>'') (\<lambda>_.
           create_table_if_not_exists))) w of
        Ok u w1 \<Rightarrow> Ok u w1
      | Raise e w1 \<Rightarrow>
          if is_Exception e
          then Raise e (print_line (''[ERROR] Could not connect: '' @ str_exn e) w1)
          else Raise e w1)"

text \<open>\<open>DB2Connections.__exit__\<close>; it returns \<open>None\<close>, so an exception of the body goes on.\<close>

definition DB2Connections_exit :: "unit prog" where
  "DB2Connections_exit = bnd (driver Close) (\<lambda>_. say ''\<newline>[OK] Connection closed.'')"

text \<open>
  \<open>with DB2Connections(dsn) as conn: repl(conn)\<close>. When \<open>__enter__\<close> raises, the body and
  \<open>__exit__\<close> are not run. Otherwise the body runs and then \<open>__exit__\<close>, once, however the
  body ends; an exception of the body is raised again after it, unless \<open>__exit__\<close> raises
  itself.
\<close>

definition with_body :: "inp list \<Rightarrow> unit prog" where
  "with_body inputs w1 =
     (case repl inputs w1 of
        Ok u w2 \<Rightarrow> DB2Connections_exit w2
      | Raise e w2 \<Rightarrow>
          (case DB2Connections_exit w2 of
             Ok u w3 \<Rightarrow> Raise e w3
           | Raise e' w3 \<Rightarrow> Raise e' w3))"

definition with_connection :: "string \<Rightarrow> inp list \<Rightarrow> unit prog" where
  "with_connection dsn_config inputs w =
     (case DB2Connections_enter dsn_config w of
        Raise e w1 \<Rightarrow> Raise e w1
      | Ok conn w1 \<Rightarrow> with_body inputs w1)"

text \<open>
  \<open>main\<close>, from the configuration on (reading the environment and checking that the
  certificate file exists come before, in \<open>DatabaseConfig()\<close>).
\<close>

definition main :: "DatabaseConfig \<Rightarrow> inp list \<Rightarrow> unit prog" where
  "main config inputs w = with_connection (dsn config) inputs (config_print config w)"

subsection \<open>Invariants\<close>

text \<open>At most one row per key in table \<open>metadata\<close>.\<close>

definition one_per_key :: "world \<Rightarrow> bool" where
  "one_per_key w = (case table w of None \<Rightarrow> True | Some rows \<Rightarrow> distinct (map fst rows))"

text \<open>How often \<open>ibm_db.close\<close> has been called.\<close>

definition closes :: "world \<Rightarrow> nat" where
  "closes w = length (filter (\<lambda>e. e = Call Close) (trace w))"

text \<open>
  A property of the world that a computation keeps, however it ends; and a property that
  printing, prompting, running a statement and every driver call but \<open>close\<close> keep.
\<close>

definition pres :: "(world \<Rightarrow> bool) \<Rightarrow> 'a prog \<Rightarrow> bool" where
  "pres P m = (\<forall>w. P w \<longrightarrow> P (final (m w)))"

definition io_stable :: "(world \<Rightarrow> bool) \<Rightarrow> bool" where
  "io_stable P =
     ((\<forall>a. a \<noteq> Close \<longrightarrow> pres P (driver a)) \<and> (\<forall>st. pres P (run st)) \<and>
      (\<forall>s w. P w \<longrightarrow> P (print_line s w)) \<and> (\<forall>w. P w \<longrightarrow> P (prompt w)))"

subsection \<open>Commands that reach the database\<close>

text \<open>
  The parts of a line that \<open>dispatch\<close> hands to one of the five store operations: the
  command word is one of theirs, the arguments are there, and for \<open>set\<close> the key and the
  value pass the length checks.
\<close>

definition store_command :: "string list \<Rightarrow> bool" where
  "store_command parts =
     (case parts of
        [] \<Rightarrow> False
      | p0 # _ \<Rightarrow>
          let cmd = lower p0 in
          (cmd = ''set'' \<and> 3 \<le> length parts \<and> length (parts ! 1) \<le> 80 \<and> length (parts ! 2) \<le> 200) \<or>
          (cmd = ''get'' \<and> 2 \<le> length parts) \<or>
          (cmd = ''del'' \<and> 2 \<le> length parts) \<or>
          cmd = ''list'' \<or>
          (cmd = ''find'' \<and> 2 \<le> length parts))"

text \<open>
  The driver functions such a command calls, in order, when no call fails: on a table
  that exists, and on a database where it does not (there the statement is rejected when
  it is run, so nothing is fetched).
\<close>

definition driver_calls :: "string list \<Rightarrow> row list option \<Rightarrow> api list" where
  "driver_calls parts t =
     (let cmd = lower (hd parts) in
      if cmd = ''set'' then [Prepare, BindParam, BindParam, Execute]
      else if cmd = ''get'' then
        [Prepare, BindParam, Execute] @ (case t of None \<Rightarrow> [] | Some rows \<Rightarrow> [FetchAssoc])
      else if cmd = ''del'' then [Prepare, BindParam, Execute]
      else if cmd = ''list'' then
        ExecImmediate # (case t of None \<Rightarrow> [] | Some rows \<Rightarrow> replicate (Suc (length rows)) FetchAssoc)
      else if cmd = ''find'' then
        [Prepare, BindParam, Execute] @
        (case t of None \<Rightarrow> []
         | Some rows \<Rightarrow> replicate (Suc (length (filter (\<lambda>r. like (fst r) (parts ! 1)) rows))) FetchAssoc)
      else [])"

text \<open>The driver functions called in a trace.\<close>

definition calls :: "event list \<Rightarrow> api list" where
  "calls tr = concat (map (\<lambda>ev. case ev of Call a \<Rightarrow> [a] | _ \<Rightarrow> []) tr)"

section \<open>Properties\<close>

subsection \<open>How the driver calls and the operations end\<close>

lemma bnd_Ok: "bnd m f w = Ok y w' \<longleftrightarrow> (\<exists>x w1. m w = Ok x w1 \<and> f x w1 = Ok y w')"
  by (simp add: bnd_def split: res.splits)

lemma bnd_Raise: "bnd m f w = Raise e w' \<longleftrightarrow> (m w = Raise e w' \<or> (\<exists>x w1. m w = Ok x w1 \<and> f x w1 = Raise e w'))"
  by (simp add: bnd_def split: res.splits)

lemma driver_table: "table (final (driver a w)) = table w"
  by (simp add: driver_def split: list.splits option.splits)

lemma driver_Ok: "driver a w = Ok u w' \<Longrightarrow> table w' = table w"
  using driver_table [of a w] by simp

lemma driver_Raise: "driver a w = Raise e w' \<Longrightarrow> table w' = table w"
  using driver_table [of a w] by simp

lemma prepare_Ok: "prepare q w = Ok st w' \<Longrightarrow> st = \<lparr>query = q, params = [], cursor = []\<rparr> \<and> table w' = table w"
  by (auto simp: prepare_def bnd_Ok dest: driver_Ok)

lemma prepare_Raise: "prepare q w = Raise e w' \<Longrightarrow> table w' = table w"
  by (auto simp: prepare_def bnd_Raise dest: driver_Raise)

lemma bind_param_Ok: "bind_param st i v w = Ok st' w' \<Longrightarrow> st' = st\<lparr>params := (i, v) # params st\<rparr> \<and> table w' = table w"
  by (auto simp: bind_param_def bnd_Ok dest: driver_Ok)

lemma bind_param_Raise: "bind_param st i v w = Raise e w' \<Longrightarrow> table w' = table w"
  by (auto simp: bind_param_def bnd_Raise dest: driver_Raise)

lemma run_Ok: "run st w = Ok st' w' \<Longrightarrow>
   (\<exists>rs. exec_sql (query st) (params st) (table w) = Inr (table w', rs) \<and> st' = st\<lparr>cursor := rs\<rparr>)"
  by (auto simp: run_def split: sum.splits prod.splits)

lemma run_Raise: "run st w = Raise e w' \<Longrightarrow> w' = w"
  by (auto simp: run_def split: sum.splits prod.splits)

lemma execute_Ok: "execute st w = Ok st' w' \<Longrightarrow>
   (\<exists>rs. exec_sql (query st) (params st) (table w) = Inr (table w', rs) \<and> st' = st\<lparr>cursor := rs\<rparr>)"
  unfolding execute_def bnd_Ok by (metis driver_Ok run_Ok)

lemma execute_Raise: "execute st w = Raise e w' \<Longrightarrow> table w' = table w"
  unfolding execute_def bnd_Raise by (metis driver_Ok driver_Raise run_Raise)

lemma exec_immediate_Ok: "exec_immediate q w = Ok st' w' \<Longrightarrow>
   (\<exists>rs. exec_sql q [] (table w) = Inr (table w', rs) \<and> cursor st' = rs)"
  unfolding exec_immediate_def bnd_Ok by (fastforce dest: driver_Ok run_Ok)

lemma exec_immediate_Raise: "exec_immediate q w = Raise e w' \<Longrightarrow> table w' = table w"
  unfolding exec_immediate_def bnd_Raise by (metis driver_Ok driver_Raise run_Raise)

lemma fetch_assoc_Ok: "fetch_assoc st w = Ok (r, st') w' \<Longrightarrow>
   table w' = table w \<and> (case cursor st of [] \<Rightarrow> r = None \<and> st' = st | d # ds \<Rightarrow> r = Some d \<and> st' = st\<lparr>cursor := ds\<rparr>)"
  by (auto simp: fetch_assoc_def bnd_Ok dest!: driver_Ok split: list.splits)

lemma fetch_assoc_Raise: "fetch_assoc st w = Raise e w' \<Longrightarrow> table w' = table w"
  by (auto simp: fetch_assoc_def bnd_Raise dest: driver_Raise split: list.splits)

lemma find_filter: "find P xs = (case filter P xs of [] \<Rightarrow> None | x # _ \<Rightarrow> Some x)"
  by (induction xs) auto

lemma set_key_Ok:
  assumes "length key \<le> 80" "length val \<le> 200" "set_key key val w = Ok u w'"
  shows "\<exists>rows. table w = Some rows \<and> table w' = Some (merge_rows key val rows)"
  using assms
  apply (simp add: set_key_def bnd_Ok say_def)
  apply (auto dest!: prepare_Ok bind_param_Ok execute_Ok simp: exec_sql_def print_line_def split: option.splits)
  done

lemma set_key_Raise:
  assumes "set_key key val w = Raise e w'"
  shows "table w' = table w"
  using assms
  apply (simp add: set_key_def bnd_Raise say_def split: if_splits)
  apply (auto dest!: prepare_Ok bind_param_Ok prepare_Raise bind_param_Raise execute_Raise)
  done

lemma get_key_Ok:
  assumes "get_key key w = Ok r w'"
  shows "\<exists>rows. table w = Some rows \<and> table w' = Some rows \<and> r = map_option snd (find (\<lambda>r. fst r = key) rows)"
proof -
  from assms obtain st1 w1 st2 w2 st3 w3 r4 st4 w4 where
    p: "prepare SelectValue w = Ok st1 w1" and
    b: "bind_param st1 1 key w1 = Ok st2 w2" and
    e: "execute st2 w2 = Ok st3 w3" and
    f: "fetch_assoc st3 w3 = Ok (r4, st4) w4" and
    g: "(case r4 of Some d \<Rightarrow> bnd (getitem d ''VALUE'') (\<lambda>v. Ok (Some v)) | None \<Rightarrow> Ok None) w4 = Ok r w'"
    unfolding get_key_def bnd_Ok by auto
  from p have st1: "st1 = \<lparr>query = SelectValue, params = [], cursor = []\<rparr>" and t1: "table w1 = table w"
    by (auto dest: prepare_Ok)
  from b have st2: "st2 = st1\<lparr>params := (1, key) # params st1\<rparr>" and t2: "table w2 = table w1"
    by (auto dest: bind_param_Ok)
  from e obtain rs where x: "exec_sql (query st2) (params st2) (table w2) = Inr (table w3, rs)"
    and st3: "st3 = st2\<lparr>cursor := rs\<rparr>"
    by (auto dest: execute_Ok)
  from x st1 st2 t1 t2 obtain rows where rows: "table w = Some rows" "table w3 = Some rows"
    and rs: "rs = map (\<lambda>r. [(''VALUE'', snd r)]) (filter (\<lambda>r. fst r = key) rows)"
    by (auto simp: exec_sql_def split: option.splits)
  from f have t4: "table w4 = table w3"
    and c: "(case cursor st3 of [] \<Rightarrow> r4 = None \<and> st4 = st3 | d # ds \<Rightarrow> r4 = Some d \<and> st4 = st3\<lparr>cursor := ds\<rparr>)"
    by (auto dest: fetch_assoc_Ok)
  show ?thesis
  proof (cases "filter (\<lambda>r. fst r = key) rows")
    case Nil
    with c st3 rs g rows t4 show ?thesis by (simp add: find_filter)
  next
    case (Cons x xs)
    with c st3 rs g rows t4 show ?thesis
      by (auto simp: find_filter getitem_def bnd_def)
  qed
qed

lemma delete_key_Ok:
  assumes "delete_key key w = Ok u w'"
  shows "\<exists>rows. table w = Some rows \<and> table w' = Some (filter (\<lambda>r. fst r \<noteq> key) rows)"
  using assms
  apply (simp add: delete_key_def bnd_Ok say_def)
  apply (auto dest!: prepare_Ok bind_param_Ok execute_Ok simp: exec_sql_def print_line_def split: option.splits)
  done

lemma delete_key_Raise:
  assumes "delete_key key w = Raise e w'"
  shows "table w' = table w"
  using assms
  apply (simp add: delete_key_def bnd_Raise say_def)
  apply (auto dest!: prepare_Ok bind_param_Ok prepare_Raise bind_param_Raise execute_Raise)
  done

lemma find_merge_rows: "map_option snd (find (\<lambda>r. fst r = k) (merge_rows k v rows)) = Some v"
  by (induction rows) (auto simp: merge_rows_def split: if_splits)

lemmas nofault_defs = bnd_def prepare_def bind_param_def execute_def exec_immediate_def run_def
  driver_def say_def print_line_def fetch_assoc_def getitem_def exec_sql_def

lemma set_key_nofault:
  assumes "length key \<le> 80" "length val \<le> 200" "faults w = []" "table w = Some rows"
  shows "set_key key val w = Ok () (w\<lparr>table := Some (merge_rows key val rows),
           trace := trace w @ [Call Prepare, Call BindParam, Call BindParam, Call Execute,
             Print (''[OK] Set  '' @ apos @ key @ apos @ '' = '' @ apos @ val @ apos)]\<rparr>)"
  using assms by (simp add: set_key_def nofault_defs)

lemma get_key_nofault:
  assumes "faults w = []" "table w = Some rows"
  shows "get_key key w = Ok (map_option snd (find (\<lambda>r. fst r = key) rows)) (w\<lparr>
           trace := trace w @ [Call Prepare, Call BindParam, Call Execute, Call FetchAssoc]\<rparr>)"
  using assms by (simp add: get_key_def nofault_defs find_filter split: list.splits)

lemma delete_key_nofault:
  assumes "faults w = []" "table w = Some rows"
  shows "delete_key key w = Ok () (w\<lparr>table := Some (filter (\<lambda>r. fst r \<noteq> key) rows),
           trace := trace w @ [Call Prepare, Call BindParam, Call Execute,
             Print (''[OK] Deleted key '' @ apos @ key @ apos)]\<rparr>)"
  using assms by (simp add: delete_key_def nofault_defs)



subsection \<open>Writing and reading a key\<close>

text \<open>
  C1. For every key of at most 80 characters and every value of at most 200 characters:
  whenever \<open>set_key\<close> with that key and value returns, and \<open>get_key\<close> with the same key,
  run in the state \<open>set_key\<close> left, returns, it returns exactly that value; and on an
  existing table with no backend fault both calls do return.
\<close>

theorem set_key_then_get_key:
  assumes "length key \<le> 80" "length val \<le> 200"
  shows "(set_key key val w = Ok u w1 \<and> get_key key w1 = Ok r w2 \<longrightarrow> r = Some val) \<and>
         (table w \<noteq> None \<and> faults w = [] \<longrightarrow>
            (\<exists>w1 w2. set_key key val w = Ok () w1 \<and> get_key key w1 = Ok (Some val) w2))"
proof (intro conjI impI)
  assume "set_key key val w = Ok u w1 \<and> get_key key w1 = Ok r w2"
  then have s: "set_key key val w = Ok u w1" and g: "get_key key w1 = Ok r w2" by simp_all
  from set_key_Ok [OF assms s] obtain rows where "table w1 = Some (merge_rows key val rows)" by auto
  with get_key_Ok [OF g] show "r = Some val" by (auto simp: find_merge_rows)
next
  assume a: "table w \<noteq> None \<and> faults w = []"
  then obtain rows where rows: "table w = Some rows" by auto
  from a rows assms show "\<exists>w1 w2. set_key key val w = Ok () w1 \<and> get_key key w1 = Ok (Some val) w2"
    by (simp add: set_key_nofault [where rows = rows]
        get_key_nofault [where rows = "merge_rows key val rows"] find_merge_rows)
qed

theorem set_key_then_get_key_witness:
  "length ''a.b'' \<le> 80 \<and> length ''1'' \<le> 200 \<and>
   (\<exists>w1 w2. set_key ''a.b'' ''1'' \<lparr>table = Some [(''a.b'', ''0'')], faults = [], trace = []\<rparr> = Ok () w1
       \<and> get_key ''a.b'' w1 = Ok (Some ''1'') w2)"
  using set_key_then_get_key [of "''a.b''" "''1''" "\<lparr>table = Some [(''a.b'', ''0'')], faults = [], trace = []\<rparr>"]
  by simp

text \<open>
  C6. When the key is longer than 80 characters, or the value is longer than 200,
  \<open>set_key\<close> prints one error line naming the field and quoting its content (the key, when
  both are too long) and returns; the table and the backend are as before, and the trace
  has grown by that line only: the driver was not called.
\<close>

theorem set_key_rejects_long:
  assumes "length key > 80 \<or> length val > 200"
  shows "set_key key val w = Ok () (w\<lparr>trace := trace w @
           [Print (if length key > 80
                   then ''[ERROR] Key too long (max 80 chars): '' @ apos @ key @ apos
                   else ''[ERROR] Value too long (max 200 chars): '' @ apos @ val @ apos)]\<rparr>)"
  using assms by (auto simp: set_key_def say_def print_line_def)

theorem set_key_rejects_long_witness:
  "length (replicate 81 CHR ''k'') > 80 \<and>
   set_key (replicate 81 CHR ''k'') ''v'' \<lparr>table = Some [(''a'', ''1'')], faults = [], trace = []\<rparr> =
     Ok () \<lparr>table = Some [(''a'', ''1'')], faults = [],
            trace = [Print (''[ERROR] Key too long (max 80 chars): '' @ apos @ replicate 81 CHR ''k'' @ apos)]\<rparr>"
  using set_key_rejects_long [of "replicate 81 CHR ''k''" "''v''" "\<lparr>table = Some [(''a'', ''1'')], faults = [], trace = []\<rparr>"]
  by simp

text \<open>
  C7. For a key that no row of the table has, \<open>get_key\<close> returns \<open>None\<close> whenever it
  returns, and it does return on a backend without faults; so it does for a key that
  \<open>delete_key\<close> has just deleted. A key stored with the empty string as its value gives
  \<open>Some []\<close>, which is not \<open>None\<close>.
\<close>

theorem get_key_absent:
  assumes "table w = Some rows" "key \<notin> set (map fst rows)"
  shows "(get_key key w = Ok r w' \<longrightarrow> r = None) \<and>
         (faults w = [] \<longrightarrow> (\<exists>w'. get_key key w = Ok None w')) \<and>
         (delete_key key w = Ok u w1 \<and> get_key key w1 = Ok r1 w2 \<longrightarrow> r1 = None) \<and>
         (length key \<le> 80 \<and> set_key key [] w = Ok u' w3 \<and> get_key key w3 = Ok r2 w4 \<longrightarrow>
            r2 = Some [] \<and> r2 \<noteq> None)"
proof -
  from assms have nf: "find (\<lambda>r. fst r = key) rows = None"
    by (force simp: find_None_iff)
  have 1: "get_key key w = Ok r w' \<longrightarrow> r = None"
    using assms(1) nf by (auto dest!: get_key_Ok)
  have 2: "faults w = [] \<longrightarrow> (\<exists>w'. get_key key w = Ok None w')"
    using assms(1) nf by (simp add: get_key_nofault [where rows = rows])
  have 3: "delete_key key w = Ok u w1 \<and> get_key key w1 = Ok r1 w2 \<longrightarrow> r1 = None"
  proof
    assume "delete_key key w = Ok u w1 \<and> get_key key w1 = Ok r1 w2"
    then have d: "delete_key key w = Ok u w1" and g: "get_key key w1 = Ok r1 w2" by simp_all
    from delete_key_Ok [OF d] obtain rs where "table w1 = Some (filter (\<lambda>r. fst r \<noteq> key) rs)" by auto
    with get_key_Ok [OF g] show "r1 = None" by (auto simp: find_None_iff)
  qed
  have 4: "length key \<le> 80 \<and> set_key key [] w = Ok u' w3 \<and> get_key key w3 = Ok r2 w4 \<longrightarrow>
             r2 = Some [] \<and> r2 \<noteq> None"
  proof
    assume "length key \<le> 80 \<and> set_key key [] w = Ok u' w3 \<and> get_key key w3 = Ok r2 w4"
    then have l: "length key \<le> 80" and s: "set_key key [] w = Ok u' w3"
      and g: "get_key key w3 = Ok r2 w4" by simp_all
    from set_key_Ok [OF l _ s] obtain rs where "table w3 = Some (merge_rows key [] rs)" by auto
    with get_key_Ok [OF g] show "r2 = Some [] \<and> r2 \<noteq> None" by (auto simp: find_merge_rows)
  qed
  from 1 2 3 4 show ?thesis by blast
qed

theorem get_key_absent_witness:
  "table \<lparr>table = Some [(''a'', ''1'')], faults = [], trace = []\<rparr> = Some [(''a'', ''1'')] \<and> ''zz'' \<notin> set (map fst [(''a'', ''1'')]) \<and>
   (\<exists>w'. get_key ''zz'' \<lparr>table = Some [(''a'', ''1'')], faults = [], trace = []\<rparr> = Ok None w')"
  using get_key_absent [of "\<lparr>table = Some [(''a'', ''1'')], faults = [], trace = []\<rparr>" "[(''a'', ''1'')]" "''zz''"]
  by simp

text \<open>
  C8. For a key that no row of the table has, \<open>delete_key\<close> leaves the table as it was,
  however the call ends; on a backend without faults it returns normally, having called
  the driver three times (prepare, bind, execute) and printed its \<open>[OK] Deleted key\<close> line,
  and nothing else of the world has changed.
\<close>

theorem delete_key_absent:
  assumes "table w = Some rows" "key \<notin> set (map fst rows)"
  shows "table (final (delete_key key w)) = table w \<and>
         (faults w = [] \<longrightarrow>
            delete_key key w = Ok () (w\<lparr>trace := trace w @
              [Call Prepare, Call BindParam, Call Execute, Print (''[OK] Deleted key '' @ apos @ key @ apos)]\<rparr>))"
proof -
  from assms(2) have f: "filter (\<lambda>r. fst r \<noteq> key) rows = rows"
    by (force simp: filter_id_conv)
  have 1: "table (final (delete_key key w)) = table w"
  proof (cases "delete_key key w")
    case (Ok u w')
    with delete_key_Ok [OF Ok] assms(1) f show ?thesis by auto
  next
    case (Raise e w')
    with delete_key_Raise [OF Raise] show ?thesis by simp
  qed
  have 2: "faults w = [] \<longrightarrow>
            delete_key key w = Ok () (w\<lparr>trace := trace w @
              [Call Prepare, Call BindParam, Call Execute, Print (''[OK] Deleted key '' @ apos @ key @ apos)]\<rparr>)"
    using assms(1) f by (simp add: delete_key_nofault [where rows = rows])
  from 1 2 show ?thesis by simp
qed

theorem delete_key_absent_witness:
  "table \<lparr>table = Some [(''a'', ''1'')], faults = [], trace = []\<rparr> = Some [(''a'', ''1'')] \<and> ''zz'' \<notin> set (map fst [(''a'', ''1'')]) \<and>
   table (final (delete_key ''zz'' \<lparr>table = Some [(''a'', ''1'')], faults = [], trace = []\<rparr>)) = Some [(''a'', ''1'')] \<and>
   delete_key ''zz'' \<lparr>table = Some [(''a'', ''1'')], faults = [], trace = []\<rparr> = Ok () \<lparr>table = Some [(''a'', ''1'')], faults = [],
     trace = [Call Prepare, Call BindParam, Call Execute, Print (''[OK] Deleted key '' @ apos @ ''zz'' @ apos)]\<rparr>"
  using delete_key_absent [of "\<lparr>table = Some [(''a'', ''1'')], faults = [], trace = []\<rparr>" "[(''a'', ''1'')]" "''zz''"]
  by simp

subsection \<open>Listing and searching\<close>

lemma getitem_kv: "getitem (kv x) ''KEY'' w = Ok (fst x) w" "getitem (kv x) ''VALUE'' w = Ok (snd x) w"
  by (simp_all add: getitem_def kv_def)

lemma exec_sql_SelectAll:
  "exec_sql SelectAll ps t =
     (case t of None \<Rightarrow> Inl undefined_name | Some rows \<Rightarrow> Inr (Some rows, map kv (sort_key fst rows)))"
  by (simp add: exec_sql_def)

lemma exec_sql_SelectLike:
  "map_of ps 1 = Some p \<Longrightarrow> exec_sql SelectLike ps t =
     (case t of None \<Rightarrow> Inl undefined_name
      | Some rows \<Rightarrow> Inr (Some rows, map kv (sort_key fst (filter (\<lambda>r. like (fst r) p) rows))))"
  by (simp add: exec_sql_def split: option.splits)

lemma while_row_Ok:
  "while_row r st acc w = Ok res w' \<Longrightarrow> cursor st = map kv rs \<Longrightarrow> r = map_option kv x \<Longrightarrow>
     table w' = table w \<and> res = acc @ (case x of None \<Rightarrow> [] | Some y \<Rightarrow> y # rs)"
proof (induction rs arbitrary: r st acc w x)
  case Nil
  show ?case
  proof (cases x)
    case None
    with Nil show ?thesis by simp
  next
    case (Some y)
    with Nil show ?thesis
      by (auto simp: getitem_kv split: res.splits prod.splits dest!: fetch_assoc_Ok)
  qed
next
  case (Cons z zs)
  show ?case
  proof (cases x)
    case None
    with Cons.prems show ?thesis by simp
  next
    case (Some y)
    with Cons.prems obtain st' w3 where
      f: "fetch_assoc st w = Ok (Some (kv z), st') w3" and c: "cursor st' = map kv zs"
      and wr: "while_row (Some (kv z)) st' (acc @ [y]) w3 = Ok res w'"
      by (auto simp: getitem_kv split: res.splits prod.splits dest!: fetch_assoc_Ok)
    from Cons.IH [OF wr c, of "Some z"] f Some show ?thesis
      by (auto dest!: fetch_assoc_Ok)
  qed
qed

lemma while_row_table: "table (final (while_row r st acc w)) = table w"
proof (induction r st acc w rule: while_row.induct)
  case (1 st rows w)
  then show ?case by simp
next
  case (2 d st rows w)
  then show ?case
    by (auto simp: getitem_def split: res.splits prod.splits option.splits dest!: fetch_assoc_Ok fetch_assoc_Raise)
qed

lemma while_row_nofault:
  "faults w = [] \<Longrightarrow> cursor st = map kv rs \<Longrightarrow>
     \<exists>w'. while_row (Some (kv y)) st acc w = Ok (acc @ y # rs) w' \<and> faults w' = [] \<and> table w' = table w"
proof (induction rs arbitrary: st acc w y)
  case Nil
  then show ?case by (simp add: getitem_kv fetch_assoc_def bnd_def driver_def)
next
  case (Cons z zs)
  have "fetch_assoc st w = Ok (Some (kv z), st\<lparr>cursor := map kv zs\<rparr>) (w\<lparr>trace := trace w @ [Call FetchAssoc]\<rparr>)"
    using Cons.prems by (simp add: fetch_assoc_def bnd_def driver_def)
  moreover from Cons.IH [of "w\<lparr>trace := trace w @ [Call FetchAssoc]\<rparr>" "st\<lparr>cursor := map kv zs\<rparr>" z "acc @ [y]"] Cons.prems
  obtain w' where "while_row (Some (kv z)) (st\<lparr>cursor := map kv zs\<rparr>) (acc @ [y]) (w\<lparr>trace := trace w @ [Call FetchAssoc]\<rparr>) = Ok ((acc @ [y]) @ z # zs) w'"
     "faults w' = []" "table w' = table w" by auto
  ultimately show ?case by (simp add: getitem_kv)
qed

lemma list_all_db_Ok:
  assumes "list_all_db w = Ok res w'"
  shows "\<exists>rows. table w = Some rows \<and> table w' = Some rows \<and> res = sort_key fst rows"
proof -
  from assms obtain st1 w1 r2 st2 w2 where
    e: "exec_immediate SelectAll w = Ok st1 w1" and
    f: "fetch_assoc st1 w1 = Ok (r2, st2) w2" and
    l: "while_row r2 st2 [] w2 = Ok res w'"
    unfolding list_all_db_def bnd_Ok by auto
  from e obtain rows where rows: "table w = Some rows" "table w1 = Some rows"
    and c: "cursor st1 = map kv (sort_key fst rows)"
    by (auto dest!: exec_immediate_Ok simp: exec_sql_SelectAll split: option.splits)
  from f have t2: "table w2 = table w1"
    and c2: "(case cursor st1 of [] \<Rightarrow> r2 = None \<and> st2 = st1 | d # ds \<Rightarrow> r2 = Some d \<and> st2 = st1\<lparr>cursor := ds\<rparr>)"
    by (auto dest: fetch_assoc_Ok)
  show ?thesis
  proof (cases "sort_key fst rows")
    case Nil
    with c c2 l rows t2 show ?thesis by simp
  next
    case (Cons y ys)
    with c c2 have "r2 = map_option kv (Some y)" "cursor st2 = map kv ys" by simp_all
    from while_row_Ok [OF l this(2) this(1)] Cons rows t2 show ?thesis by simp
  qed
qed

lemma search_keys_Ok:
  assumes "search_keys p w = Ok res w'"
  shows "\<exists>rows. table w = Some rows \<and> table w' = Some rows \<and> res = sort_key fst (filter (\<lambda>r. like (fst r) p) rows)"
proof -
  from assms obtain st0 w0 sta wa st1 w1 r2 st2 w2 where
    p: "prepare SelectLike w = Ok st0 w0" and
    b: "bind_param st0 1 p w0 = Ok sta wa" and
    e: "execute sta wa = Ok st1 w1" and
    f: "fetch_assoc st1 w1 = Ok (r2, st2) w2" and
    l: "while_row r2 st2 [] w2 = Ok res w'"
    unfolding search_keys_def bnd_Ok by auto
  from p b have sta: "query sta = SelectLike" "params sta = [(1, p)]" and ta: "table wa = table w"
    by (auto dest!: prepare_Ok bind_param_Ok)
  from sta have "map_of (params sta) 1 = Some p" by simp
  from e sta ta exec_sql_SelectLike [OF this, of "table w"]
  obtain rows where rows: "table w = Some rows" "table w1 = Some rows"
    and c: "cursor st1 = map kv (sort_key fst (filter (\<lambda>r. like (fst r) p) rows))"
    by (auto dest!: execute_Ok split: option.splits)
  from f have t2: "table w2 = table w1"
    and c2: "(case cursor st1 of [] \<Rightarrow> r2 = None \<and> st2 = st1 | d # ds \<Rightarrow> r2 = Some d \<and> st2 = st1\<lparr>cursor := ds\<rparr>)"
    by (auto dest: fetch_assoc_Ok)
  show ?thesis
  proof (cases "sort_key fst (filter (\<lambda>r. like (fst r) p) rows)")
    case Nil
    with c c2 l rows t2 show ?thesis by simp
  next
    case (Cons y ys)
    with c c2 have "r2 = map_option kv (Some y)" "cursor st2 = map kv ys" by simp_all
    from while_row_Ok [OF l this(2) this(1)] Cons rows t2 show ?thesis by simp
  qed
qed


lemma list_all_db_nofault:
  assumes "faults w = []" "table w = Some rows"
  shows "\<exists>w'. list_all_db w = Ok (sort_key fst rows) w' \<and> faults w' = [] \<and> table w' = Some rows"
proof (cases "sort_key fst rows")
  case Nil
  with assms show ?thesis
    by (simp add: list_all_db_def nofault_defs)
next
  case (Cons y ys)
  let ?w = "w\<lparr>table := Some rows, trace := trace w @ [Call ExecImmediate, Call FetchAssoc]\<rparr>"
  let ?st = "\<lparr>query = SelectAll, params = [], cursor = map kv ys\<rparr>"
  from assms have "faults ?w = []" "cursor ?st = map kv ys" by simp_all
  from while_row_nofault [OF this, of y "[]"] assms(2)
  obtain w' where "while_row (Some (kv y)) ?st [] ?w = Ok (y # ys) w'" "faults w' = []" "table w' = Some rows"
    by auto
  with Cons assms show ?thesis
    by (simp add: list_all_db_def nofault_defs del: while_row.simps)
qed

lemma search_keys_nofault:
  assumes "faults w = []" "table w = Some rows"
  shows "\<exists>w'. search_keys p w = Ok (sort_key fst (filter (\<lambda>r. like (fst r) p) rows)) w' \<and> faults w' = [] \<and> table w' = Some rows"
proof (cases "sort_key fst (filter (\<lambda>r. like (fst r) p) rows)")
  case Nil
  with assms show ?thesis
    by (simp add: search_keys_def nofault_defs)
next
  case (Cons y ys)
  let ?w = "w\<lparr>table := Some rows, trace := trace w @ [Call Prepare, Call BindParam, Call Execute, Call FetchAssoc]\<rparr>"
  let ?st = "\<lparr>query = SelectLike, params = [(1, p)], cursor = map kv ys\<rparr>"
  from assms have "faults ?w = []" "cursor ?st = map kv ys" by simp_all
  from while_row_nofault [OF this, of y "[]"] assms(2)
  obtain w' where "while_row (Some (kv y)) ?st [] ?w = Ok (y # ys) w'" "faults w' = []" "table w' = Some rows"
    by auto
  with Cons assms show ?thesis
    by (simp add: search_keys_def nofault_defs del: while_row.simps)
qed

lemma like_percent: "like s ''%''"
  by (induction s) simp_all

lemma like_literal:
  "p \<noteq> CHR ''%'' \<Longrightarrow> p \<noteq> CHR ''_'' \<Longrightarrow> like s (p # ps) = (case s of [] \<Rightarrow> False | c # cs \<Rightarrow> c = p \<and> like cs ps)"
  by (cases s) auto

lemma like_app: "like k ''app.%'' = prefix ''app.'' k"
  by (auto simp: like_literal like_percent split: list.splits)

text \<open>
  C9. Whenever \<open>list_all\<close> and \<open>search_keys\<close> both return from the same state, the rows
  found are exactly the rows of the listing whose key matches the \<open>LIKE\<close> pattern, in the
  order of the listing, which is ascending by key; for the pattern \<open>app.%\<close> these are the
  rows whose key starts with \<open>app.\<close>. On an existing table with no backend fault both
  calls do return.
\<close>

theorem search_keys_filters_list_all:
  "(list_all_db w = Ok all w1 \<and> search_keys p w = Ok found w2 \<longrightarrow>
      found = filter (\<lambda>(k, v). like k p) all \<and> sorted (map fst all)) \<and>
   (list_all_db w = Ok all w1 \<and> search_keys ''app.%'' w = Ok found' w2 \<longrightarrow>
      found' = filter (\<lambda>(k, v). prefix ''app.'' k) all) \<and>
   (table w \<noteq> None \<and> faults w = [] \<longrightarrow>
      (\<exists>all w1 w2. list_all_db w = Ok all w1 \<and> search_keys p w = Ok (filter (\<lambda>(k, v). like k p) all) w2))"
proof (intro conjI impI)
  assume a: "list_all_db w = Ok all w1 \<and> search_keys p w = Ok found w2"
  then obtain rows where "table w = Some rows" "all = sort_key fst rows"
    by (auto dest!: list_all_db_Ok)
  with a show "found = filter (\<lambda>(k, v). like k p) all"
    by (auto dest!: search_keys_Ok simp: filter_sort case_prod_unfold)
  from \<open>all = sort_key fst rows\<close> show "sorted (map fst all)" by simp
next
  assume a: "list_all_db w = Ok all w1 \<and> search_keys ''app.%'' w = Ok found' w2"
  then obtain rows where "table w = Some rows" "all = sort_key fst rows"
    by (auto dest!: list_all_db_Ok)
  with a show "found' = filter (\<lambda>(k, v). prefix ''app.'' k) all"
    by (auto dest!: search_keys_Ok simp: filter_sort case_prod_unfold like_app)
next
  assume "table w \<noteq> None \<and> faults w = []"
  then obtain rows where r: "table w = Some rows" "faults w = []" by auto
  from list_all_db_nofault [OF r(2) r(1)] search_keys_nofault [OF r(2) r(1), of p]
  show "\<exists>all w1 w2. list_all_db w = Ok all w1 \<and> search_keys p w = Ok (filter (\<lambda>(k, v). like k p) all) w2"
    by (auto simp: filter_sort case_prod_unfold)
qed

theorem search_keys_filters_list_all_witness:
  "table \<lparr>table = Some [(''b'', ''2''), (''app.x'', ''1''), (''a.c'', ''3'')], faults = [], trace = []\<rparr> \<noteq> None \<and>
   (\<exists>all w1 w2.
      list_all_db \<lparr>table = Some [(''b'', ''2''), (''app.x'', ''1''), (''a.c'', ''3'')], faults = [], trace = []\<rparr> = Ok all w1 \<and>
      search_keys ''app.%'' \<lparr>table = Some [(''b'', ''2''), (''app.x'', ''1''), (''a.c'', ''3'')], faults = [], trace = []\<rparr> =
        Ok (filter (\<lambda>(k, v). like k ''app.%'') all) w2)"
  using search_keys_filters_list_all [of "\<lparr>table = Some [(''b'', ''2''), (''app.x'', ''1''), (''a.c'', ''3'')], faults = [], trace = []\<rparr>" _ _ "''app.%''"]
  by simp

subsection \<open>One row per key\<close>

lemma presD: "pres P m \<Longrightarrow> P w \<Longrightarrow> P (final (m w))"
  by (simp add: pres_def)

lemma pres_bnd: "pres P m \<Longrightarrow> (\<And>x. pres P (f x)) \<Longrightarrow> pres P (bnd m f)"
  by (auto simp: pres_def bnd_def split: res.splits)

lemma pres_Ok: "pres P (Ok x)"
  by (simp add: pres_def)

lemma pres_say: "io_stable P \<Longrightarrow> pres P (say s)"
  by (simp add: pres_def io_stable_def say_def)

lemma pres_getitem: "pres P (getitem d n)"
  by (simp add: pres_def getitem_def split: option.splits)

lemma pres_prepare: "io_stable P \<Longrightarrow> pres P (prepare q)"
  unfolding prepare_def by (intro pres_bnd pres_Ok) (simp add: io_stable_def)

lemma pres_bind_param: "io_stable P \<Longrightarrow> pres P (bind_param st i v)"
  unfolding bind_param_def by (intro pres_bnd pres_Ok) (simp add: io_stable_def)

lemma pres_execute: "io_stable P \<Longrightarrow> pres P (execute st)"
  unfolding execute_def by (intro pres_bnd) (simp_all add: io_stable_def)

lemma pres_exec_immediate: "io_stable P \<Longrightarrow> pres P (exec_immediate q)"
  unfolding exec_immediate_def by (intro pres_bnd) (simp_all add: io_stable_def)

lemma pres_fetch_assoc: "io_stable P \<Longrightarrow> pres P (fetch_assoc st)"
  unfolding fetch_assoc_def
  by (intro pres_bnd) (simp_all add: io_stable_def pres_Ok split: list.splits)

lemma pres_while_row_aux: "io_stable P \<Longrightarrow> P w \<Longrightarrow> P (final (while_row r st acc w))"
proof (induction r st acc w rule: while_row.induct)
  case (1 st rows w)
  then show ?case by simp
next
  case (2 d st rows w)
  from "2.prems" have f: "P (final (fetch_assoc st w))"
    by (auto dest: pres_fetch_assoc presD)
  show ?case
  proof (cases "getitem d ''KEY'' w")
    case (Raise e w1)
    with "2.prems" show ?thesis by (auto simp: getitem_def split: option.splits)
  next
    case k: (Ok k w1)
    then have w1: "w1 = w" by (auto simp: getitem_def split: option.splits)
    show ?thesis
    proof (cases "getitem d ''VALUE'' w1")
      case (Raise e w2)
      with k w1 "2.prems" show ?thesis by (auto simp: getitem_def split: option.splits)
    next
      case v: (Ok v w2)
      then have w2: "w2 = w" using w1 by (auto simp: getitem_def split: option.splits)
      show ?thesis
      proof (cases "fetch_assoc st w2")
        case (Raise e w3)
        with k v w2 f show ?thesis by simp
      next
        case (Ok x w3)
        obtain r st' where x: "x = (r, st')" by (cases x)
        from Ok w2 f have "P w3" by simp
        from "2.IH" [OF k v Ok [unfolded x] refl "2.prems"(1) this] k v Ok x
        show ?thesis by simp
      qed
    qed
  qed
qed

lemma pres_while_row: "io_stable P \<Longrightarrow> pres P (while_row r st acc)"
  by (simp add: pres_def pres_while_row_aux)

lemma pres_case_prod: "(\<And>a b. pres P (f a b)) \<Longrightarrow> pres P (case_prod f x)"
  by (cases x) simp

lemma pres_set_key: "io_stable P \<Longrightarrow> pres P (set_key k v)"
  unfolding set_key_def
  by (auto intro!: pres_bnd pres_say pres_prepare pres_bind_param pres_execute)

lemma pres_get_key: "io_stable P \<Longrightarrow> pres P (get_key k)"
  unfolding get_key_def
  by (auto intro!: pres_bnd pres_prepare pres_bind_param pres_execute pres_fetch_assoc pres_case_prod
        pres_getitem pres_Ok split: option.splits)

lemma pres_delete_key: "io_stable P \<Longrightarrow> pres P (delete_key k)"
  unfolding delete_key_def
  by (auto intro!: pres_bnd pres_say pres_prepare pres_bind_param pres_execute)

lemma pres_list_all_db: "io_stable P \<Longrightarrow> pres P list_all_db"
  unfolding list_all_db_def
  by (auto intro!: pres_bnd pres_exec_immediate pres_fetch_assoc pres_case_prod pres_while_row)

lemma pres_search_keys: "io_stable P \<Longrightarrow> pres P (search_keys p)"
  unfolding search_keys_def
  by (auto intro!: pres_bnd pres_prepare pres_bind_param pres_execute pres_fetch_assoc pres_case_prod pres_while_row)


lemma pres_prints: "io_stable P \<Longrightarrow> P w \<Longrightarrow> P (foldl (\<lambda>w s. print_line s w) w xs)"
  by (induction xs arbitrary: w) (simp_all add: io_stable_def)

lemma pres_print_table:
  assumes "io_stable P" "P w"
  shows "P (print_table rows w)"
proof (cases "rows = []")
  case True
  with assms show ?thesis by (simp add: print_table_def io_stable_def)
next
  case False
  then show ?thesis
    unfolding print_table_def Let_def by (simp only: if_False) (rule pres_prints [OF assms])
qed

lemma final_bnd: "pres P m \<Longrightarrow> (\<And>x. pres P (f x)) \<Longrightarrow> P w \<Longrightarrow> P (final (bnd m f w))"
  by (rule presD [OF pres_bnd])

lemma pres_Ok_print: "io_stable P \<Longrightarrow> pres P (\<lambda>w. Ok x (print_line s w))"
  by (simp add: pres_def io_stable_def)

lemma pres_Ok_table: "io_stable P \<Longrightarrow> pres P (\<lambda>w. Ok x (print_table rows w))"
  unfolding pres_def by (intro allI impI) (simp only: final.simps, rule pres_print_table)

lemma pres_dispatch: "io_stable P \<Longrightarrow> pres P (dispatch parts)"
  unfolding pres_def
proof (intro allI impI)
  fix w assume s: "io_stable P" and p: "P w"
  then have pl: "\<And>s. P (print_line s w)" by (simp add: io_stable_def)
  show "P (final (dispatch parts w))"
  proof (cases parts)
    case Nil
    with p show ?thesis by (simp add: dispatch_def)
  next
    case (Cons p0 ps)
    have 1: "\<And>a b. P (final (bnd (set_key a b) (\<lambda>_. Ok Continue) w))"
      using s p by (intro final_bnd [where P = P] pres_set_key pres_Ok)
    have 2: "\<And>a b c. P (final (bnd (get_key a) (\<lambda>val w.
                    case val of
                      None \<Rightarrow> Ok Continue (print_line b w)
                    | Some v \<Rightarrow> Ok Continue (print_line (c v) w)) w))"
    proof (intro final_bnd [where P = P] pres_get_key s p)
      fix b c and x :: "string option"
      from s show "pres P (\<lambda>w. case x of
                      None \<Rightarrow> Ok Continue (print_line b w)
                    | Some v \<Rightarrow> Ok Continue (print_line (c v) w))"
        by (cases x) (simp_all add: pres_Ok_print)
    qed
    have 3: "\<And>a. P (final (bnd (delete_key a) (\<lambda>_. Ok Continue) w))"
      using s p by (intro final_bnd [where P = P] pres_delete_key pres_Ok)
    have 4: "P (final (bnd list_all_db (\<lambda>rows w. Ok Continue (print_table rows w)) w))"
      using s p by (intro final_bnd [where P = P] pres_list_all_db pres_Ok_table)
    have 5: "\<And>a. P (final (bnd (search_keys a) (\<lambda>rows w. Ok Continue (print_table rows w)) w))"
      using s p by (intro final_bnd [where P = P] pres_search_keys pres_Ok_table)
    from Cons p pl 1 2 3 4 5 show ?thesis
      by (simp add: dispatch_def Let_def print_help_def)
  qed
qed

lemma pres_repl_loop_aux: "io_stable P \<Longrightarrow> P w \<Longrightarrow> P (final (repl_loop inputs w))"
proof (induction inputs arbitrary: w)
  case Nil
  then show ?case by (simp add: io_stable_def)
next
  case (Cons i rest)
  from Cons.prems have pp: "P (prompt w)" by (simp add: io_stable_def)
  show ?case
  proof (cases i)
    case (Line l)
    show ?thesis
    proof (cases "strip l = []")
      case True
      with Line Cons.IH [OF Cons.prems(1) pp] show ?thesis by simp
    next
      case False
      from presD [OF pres_dispatch [OF Cons.prems(1)] pp]
      have d: "P (final (dispatch (split_ws 2 (strip l)) (prompt w)))" .
      show ?thesis
      proof (cases "dispatch (split_ws 2 (strip l)) (prompt w)")
        case (Raise e w')
        with d Line False show ?thesis by simp
      next
        case (Ok fl w')
        with d have "P w'" by simp
        with Ok Line False Cons.IH [OF Cons.prems(1) this] show ?thesis
          by (cases fl) simp_all
      qed
    qed
  next
    case Eof
    with pp show ?thesis by simp
  next
    case Interrupt
    with pp show ?thesis by simp
  qed
qed

lemma pres_repl: "io_stable P \<Longrightarrow> pres P (repl inputs)"
  unfolding repl_def
  by (intro pres_bnd pres_say) (simp_all add: pres_def pres_repl_loop_aux)

lemma pres_create_table: "io_stable P \<Longrightarrow> pres P create_table_if_not_exists"
  unfolding pres_def
proof (intro allI impI)
  fix w assume s: "io_stable P" and p: "P w"
  from s have "pres P (bnd (exec_immediate CreateTable) (\<lambda>_. say (''[OK] Table '' @ apos @ ''metadata'' @ apos @ '' is ready.\<newline>'')))"
    by (intro pres_bnd pres_exec_immediate pres_say)
  from presD [OF this p]
  have "P (final (bnd (exec_immediate CreateTable) (\<lambda>_. say (''[OK] Table '' @ apos @ ''metadata'' @ apos @ '' is ready.\<newline>'')) w))"
    (is "P (final ?r)") .
  moreover from s have "\<And>s w. P w \<Longrightarrow> P (print_line s w)" by (simp add: io_stable_def)
  ultimately show "P (final (create_table_if_not_exists w))"
    unfolding create_table_if_not_exists_def by (cases ?r) (simp_all add: say_def)
qed

lemma pres_enter: "io_stable P \<Longrightarrow> pres P (DB2Connections_enter dsn_config)"
  unfolding pres_def
proof (intro allI impI)
  fix w assume s: "io_stable P" and p: "P w"
  from s have "pres P (driver Connect)" by (simp add: io_stable_def)
  with s have "pres P (bnd (say ''[OK] Connecting to DB2'') (\<lambda>_.
           bnd (driver Connect) (\<lambda>_.
           bnd (say ''[OK] Connected to Db2.\<newline>'') (\<lambda>_.
           create_table_if_not_exists))))"
    by (intro pres_bnd pres_say pres_create_table)
  from presD [OF this p]
  have "P (final (bnd (say ''[OK] Connecting to DB2'') (\<lambda>_.
           bnd (driver Connect) (\<lambda>_.
           bnd (say ''[OK] Connected to Db2.\<newline>'') (\<lambda>_.
           create_table_if_not_exists))) w))"
    (is "P (final ?r)") .
  moreover from s have "\<And>s w. P w \<Longrightarrow> P (print_line s w)" by (simp add: io_stable_def)
  ultimately show "P (final (DB2Connections_enter dsn_config w))"
    unfolding DB2Connections_enter_def by (cases ?r) simp_all
qed

lemma map_fst_update: "map fst (map (\<lambda>r. if fst r = k then (fst r, v) else r) rows) = map fst rows"
  by (induction rows) auto

lemma merge_rows_distinct:
  assumes "distinct (map fst rows)"
  shows "distinct (map fst (merge_rows k v rows))"
proof (cases "k \<in> set (map fst rows)")
  case True
  then have "merge_rows k v rows = map (\<lambda>r. if fst r = k then (fst r, v) else r) rows"
    by (simp add: merge_rows_def)
  with assms show ?thesis by (simp only: map_fst_update)
next
  case False
  then have "merge_rows k v rows = rows @ [(k, v)]"
    by (simp add: merge_rows_def)
  with assms False show ?thesis by simp
qed

lemma exec_sql_distinct:
  "exec_sql q ps t = Inr (t', rs) \<Longrightarrow> (case t of None \<Rightarrow> True | Some rows \<Rightarrow> distinct (map fst rows)) \<Longrightarrow>
     (case t' of None \<Rightarrow> True | Some rows \<Rightarrow> distinct (map fst rows))"
  by (cases q) (auto simp: exec_sql_def merge_rows_distinct distinct_map_filter split: option.splits)

lemma io_stable_one_per_key: "io_stable one_per_key"
  unfolding io_stable_def pres_def
proof (intro conjI allI impI)
  fix a w assume "one_per_key w"
  then show "one_per_key (final (driver a w))"
    using driver_table [of a w] by (simp add: one_per_key_def)
next
  fix st w assume o: "one_per_key w"
  show "one_per_key (final (run st w))"
  proof (cases "run st w")
    case (Ok st' w')
    with run_Ok [OF Ok] o show ?thesis
      by (auto simp: one_per_key_def dest: exec_sql_distinct)
  next
    case (Raise e w')
    with run_Raise [OF Raise] o show ?thesis by simp
  qed
qed (simp_all add: one_per_key_def print_line_def prompt_def)

lemma driver_close_one_per_key: "one_per_key w \<Longrightarrow> one_per_key (final (driver Close w))"
  using driver_table [of Close w] by (simp add: one_per_key_def)


lemma exit_one_per_key: "one_per_key w \<Longrightarrow> one_per_key (final (DB2Connections_exit w))"
  using driver_table [of Close w]
  by (cases "driver Close w") (simp_all add: DB2Connections_exit_def bnd_def say_def print_line_def one_per_key_def)

lemma with_body_one_per_key:
  assumes "one_per_key w1"
  shows "one_per_key (final (with_body inputs w1))"
proof -
  from presD [OF pres_repl [OF io_stable_one_per_key] assms, of inputs]
  have r: "one_per_key (final (repl inputs w1))" .
  show ?thesis
  proof (cases "repl inputs w1")
    case (Ok u2 w2)
    with r exit_one_per_key [of w2] show ?thesis by (simp add: with_body_def)
  next
    case (Raise e w2)
    with r exit_one_per_key [of w2] show ?thesis
      by (cases "DB2Connections_exit w2") (simp_all add: with_body_def)
  qed
qed

lemma with_connection_one_per_key:
  assumes "one_per_key w"
  shows "one_per_key (final (with_connection dsn_config inputs w))"
proof (cases "DB2Connections_enter dsn_config w")
  case (Raise e w1)
  with presD [OF pres_enter [OF io_stable_one_per_key] assms, of dsn_config]
  show ?thesis by (simp add: with_connection_def)
next
  case (Ok u w1)
  with presD [OF pres_enter [OF io_stable_one_per_key] assms, of dsn_config]
  have "one_per_key w1" by simp
  with Ok with_body_one_per_key [of w1 inputs] show ?thesis
    by (simp add: with_connection_def)
qed

lemma filter_update_absent:
  "k \<notin> fst ` set rows \<Longrightarrow> filter (\<lambda>r. fst r = k) (map (\<lambda>r. if fst r = k then (fst r, v) else r) rows) = []"
  by (induction rows) auto

lemma filter_update_present:
  "distinct (map fst rows) \<Longrightarrow> k \<in> fst ` set rows \<Longrightarrow>
     filter (\<lambda>r. fst r = k) (map (\<lambda>r. if fst r = k then (fst r, v) else r) rows) = [(k, v)]"
proof (induction rows)
  case Nil
  then show ?case by simp
next
  case (Cons a rows)
  show ?case
  proof (cases "fst a = k")
    case True
    with Cons.prems have "k \<notin> fst ` set rows" by auto
    with True show ?thesis by (simp add: filter_update_absent)
  next
    case False
    with Cons show ?thesis by auto
  qed
qed

text \<open>
  C2. A table with at most one row per key still has at most one row per key after
  \<open>set_key\<close>, \<open>get_key\<close>, \<open>delete_key\<close>, \<open>list_all\<close> and \<open>search_keys\<close>, and after a
  whole session (\<open>main\<close>), however each of them ends. When the key is already there,
  \<open>set_key\<close> with a valid key and value on a backend without faults returns normally, the
  table has as many rows as before, and exactly one row has the key: the one holding the
  new value.
\<close>

theorem one_record_per_key:
  assumes "one_per_key w"
  shows "one_per_key (final (set_key k v w)) \<and>
         one_per_key (final (get_key k w)) \<and>
         one_per_key (final (delete_key k w)) \<and>
         one_per_key (final (list_all_db w)) \<and>
         one_per_key (final (search_keys p w)) \<and>
         one_per_key (final (main config inputs w)) \<and>
         (table w = Some rows \<and> k \<in> set (map fst rows) \<and> length k \<le> 80 \<and> length v \<le> 200 \<and> faults w = [] \<longrightarrow>
            (\<exists>w' rows'. set_key k v w = Ok () w' \<and> table w' = Some rows' \<and>
               filter (\<lambda>r. fst r = k) rows' = [(k, v)] \<and> length rows' = length rows))"
proof -
  note s = io_stable_one_per_key
  have m: "one_per_key (final (main config inputs w))"
    unfolding main_def config_print_def
    by (rule with_connection_one_per_key) (rule pres_prints [OF s assms])
  have u: "table w = Some rows \<and> k \<in> set (map fst rows) \<and> length k \<le> 80 \<and> length v \<le> 200 \<and> faults w = [] \<longrightarrow>
            (\<exists>w' rows'. set_key k v w = Ok () w' \<and> table w' = Some rows' \<and>
               filter (\<lambda>r. fst r = k) rows' = [(k, v)] \<and> length rows' = length rows)"
  proof
    assume a: "table w = Some rows \<and> k \<in> set (map fst rows) \<and> length k \<le> 80 \<and> length v \<le> 200 \<and> faults w = []"
    with assms have d: "distinct (map fst rows)" by (simp add: one_per_key_def)
    from a have mr: "merge_rows k v rows = map (\<lambda>r. if fst r = k then (fst r, v) else r) rows"
      by (simp add: merge_rows_def)
    from a d have "filter (\<lambda>r. fst r = k) (merge_rows k v rows) = [(k, v)]"
      unfolding mr by (intro filter_update_present) simp_all
    moreover have "length (merge_rows k v rows) = length rows" unfolding mr by simp
    moreover from a have "set_key k v w = Ok () (w\<lparr>table := Some (merge_rows k v rows),
           trace := trace w @ [Call Prepare, Call BindParam, Call BindParam, Call Execute,
             Print (''[OK] Set  '' @ apos @ k @ apos @ '' = '' @ apos @ v @ apos)]\<rparr>)"
      by (intro set_key_nofault) simp_all
    ultimately show "\<exists>w' rows'. set_key k v w = Ok () w' \<and> table w' = Some rows' \<and>
               filter (\<lambda>r. fst r = k) rows' = [(k, v)] \<and> length rows' = length rows"
      by simp
  qed
  from presD [OF pres_set_key [OF s] assms] presD [OF pres_get_key [OF s] assms]
    presD [OF pres_delete_key [OF s] assms] presD [OF pres_list_all_db [OF s] assms]
    presD [OF pres_search_keys [OF s] assms] m u
  show ?thesis by blast
qed

theorem one_record_per_key_witness:
  "one_per_key \<lparr>table = Some [(''a'', ''1''), (''b'', ''2'')], faults = [], trace = []\<rparr> \<and>
   (\<exists>w' rows'. set_key ''a'' ''9'' \<lparr>table = Some [(''a'', ''1''), (''b'', ''2'')], faults = [], trace = []\<rparr> = Ok () w' \<and>
      table w' = Some rows' \<and> filter (\<lambda>r. fst r = ''a'') rows' = [(''a'', ''9'')] \<and>
      length rows' = length [(''a'', ''1''), (''b'', ''2'')])"
proof -
  have o: "one_per_key \<lparr>table = Some [(''a'', ''1''), (''b'', ''2'')], faults = [], trace = []\<rparr>"
    by (simp add: one_per_key_def)
  from one_record_per_key [OF o, of "''a''" "''9''" "''%''"
      "\<lparr>host = [], database = [], uid = [], port = [], ssl_cert = [], dsn = []\<rparr>" "[]"
      "[(''a'', ''1''), (''b'', ''2'')]"]
  have "\<exists>w' rows'. set_key ''a'' ''9'' \<lparr>table = Some [(''a'', ''1''), (''b'', ''2'')], faults = [], trace = []\<rparr> = Ok () w' \<and>
      table w' = Some rows' \<and> filter (\<lambda>r. fst r = ''a'') rows' = [(''a'', ''9'')] \<and>
      length rows' = length [(''a'', ''1''), (''b'', ''2'')]"
    by (elim conjE) simp
  with o show ?thesis by simp
qed

subsection \<open>Opening and closing the connection\<close>




lemmas eval_defs = strip_def is_space_def lower_def lower_char_def numeral_2_eq_2 dispatch_def
  set_key_def get_key_def delete_key_def search_keys_def list_all_db_def nofault_defs Let_def
  repl_def prompt_def with_connection_def with_body_def DB2Connections_enter_def DB2Connections_exit_def
  create_table_if_not_exists_def apos_def char_of_def bit_0 closes_def




text \<open>
  Once \<open>__enter__\<close> has returned, \<open>ibm_db.close\<close> is called exactly once in the rest of the
  session, however the command loop ends.
\<close>

lemma io_stable_closes: "io_stable (\<lambda>w. closes w = n)"
  unfolding io_stable_def pres_def
proof (intro conjI allI impI)
  fix a w assume "a \<noteq> Close" "closes w = n"
  then show "closes (final (driver a w)) = n"
    by (simp add: driver_def closes_def split: list.splits option.splits)
next
  fix st w assume "closes w = n"
  then show "closes (final (run st w)) = n"
    by (simp add: run_def closes_def split: sum.splits prod.splits)
qed (simp_all add: closes_def print_line_def prompt_def)

lemma exit_closes: "closes (final (DB2Connections_exit w)) = Suc (closes w)"
  by (simp add: DB2Connections_exit_def bnd_def driver_def say_def print_line_def closes_def
      split: list.splits option.splits)

lemma exit_faults: "faults w = [] \<Longrightarrow> \<exists>w'. DB2Connections_exit w = Ok () w'"
  by (simp add: DB2Connections_exit_def bnd_def driver_def say_def)

lemma repl_closes: "closes (final (repl inputs w)) = closes w"
proof -
  have "pres (\<lambda>w'. closes w' = closes w) (repl inputs)"
    by (rule pres_repl [OF io_stable_closes])
  from presD [OF this] show ?thesis by simp
qed

lemma enter_closes: "closes (final (DB2Connections_enter dsn_config w)) = closes w"
proof -
  have "pres (\<lambda>w'. closes w' = closes w) (DB2Connections_enter dsn_config)"
    by (rule pres_enter [OF io_stable_closes])
  from presD [OF this] show ?thesis by simp
qed

lemma with_body_closes: "closes (final (with_body inputs w)) = Suc (closes w)"
proof (cases "repl inputs w")
  case (Ok u w2)
  with repl_closes [of inputs w] exit_closes [of w2] show ?thesis
    by (simp add: with_body_def)
next
  case (Raise e w2)
  with repl_closes [of inputs w] exit_closes [of w2] show ?thesis
    by (cases "DB2Connections_exit w2") (simp_all add: with_body_def)
qed

lemma close_once:
  assumes "DB2Connections_enter dsn_config w = Ok u w1"
  shows "closes (final (with_connection dsn_config inputs w)) = Suc (closes w)"
  using assms enter_closes [of dsn_config w] with_body_closes [of inputs w1]
  by (simp add: with_connection_def)

text \<open>
  C3. A session in which the connection is made and the create-table statement then fails
  with an error other than \<open>-601\<close> (here \<open>-552\<close>, a missing privilege): \<open>__enter__\<close> raises,
  so the \<open>with\<close> statement runs neither its body nor \<open>__exit__\<close>, and the session ends
  without any call of \<open>ibm_db.close\<close> on the connection it had made.
\<close>

theorem bootstrap_failure_skips_close:
  "with_connection dsn_config inputs
     \<lparr>table = None,
      faults = [None, Some (Exception ''SQL0552N  DB2INST1 does not have the privilege to perform operation CREATE TABLE.  SQLSTATE=42502 SQLCODE=-552'')],
      trace = []\<rparr> =
   Raise (Exception ''SQL0552N  DB2INST1 does not have the privilege to perform operation CREATE TABLE.  SQLSTATE=42502 SQLCODE=-552'')
     \<lparr>table = None, faults = [],
      trace = [Print ''[OK] Connecting to DB2'', Call Connect, Print ''[OK] Connected to Db2.\<newline>'',
               Call ExecImmediate,
               Print ''[ERROR] Could not connect: SQL0552N  DB2INST1 does not have the privilege to perform operation CREATE TABLE.  SQLSTATE=42502 SQLCODE=-552'']\<rparr> \<and>
   closes (final (with_connection dsn_config inputs
     \<lparr>table = None,
      faults = [None, Some (Exception ''SQL0552N  DB2INST1 does not have the privilege to perform operation CREATE TABLE.  SQLSTATE=42502 SQLCODE=-552'')],
      trace = []\<rparr>)) = 0"
  by (simp add: eval_defs)

subsection \<open>The command loop\<close>

text \<open>
  A session whose first command, \<open>find a%\<close>, fails in \<open>ibm_db.execute\<close>: nothing catches
  the exception in \<open>repl\<close>. No diagnostic line is printed for it, the second line
  \<open>set a 1\<close> is never read (one prompt only, no row written), the connection is closed and
  the session ends with the exception.
\<close>

theorem query_error_ends_session_counterexample:
  "with_connection ''DATABASE=bludb;'' [Line ''find a%'', Line ''set a 1'']
     \<lparr>table = Some [],
      faults = [None, None, None, None, Some (Exception ''SQL0952N  Processing was cancelled due to an interrupt.  SQLSTATE=57014 SQLCODE=-952'')],
      trace = []\<rparr> =
   Raise (Exception ''SQL0952N  Processing was cancelled due to an interrupt.  SQLSTATE=57014 SQLCODE=-952'')
     \<lparr>table = Some [], faults = [],
      trace = [Print ''[OK] Connecting to DB2'', Call Connect, Print ''[OK] Connected to Db2.\<newline>'',
               Call ExecImmediate,
               Print (''[OK] Table '' @ apos @ ''metadata'' @ apos @ '' is ready.\<newline>''),
               Print (''Db2 Metadata Manager  |  type '' @ apos @ ''help'' @ apos @ '' for commands\<newline>''),
               Prompt ''db2-meta> '', Call Prepare, Call BindParam, Call Execute,
               Call Close, Print ''\<newline>[OK] Connection closed.'']\<rparr>"
  by (simp add: eval_defs)

text \<open>
  What a store command does when a driver call of its own fails, and when the database
  rejects its statement; and the calls it makes when nothing fails.
\<close>

lemma driver_pass:
  "faults w = None # fs' \<Longrightarrow> driver a w = Ok () (w\<lparr>faults := fs', trace := trace w @ [Call a]\<rparr>)"
  by (simp add: driver_def)

lemma driver_fail:
  "faults w = Some e # fs \<Longrightarrow> driver a w = Raise e (w\<lparr>faults := fs, trace := trace w @ [Call a]\<rparr>)"
  by (simp add: driver_def)

lemma lt4: "n < 4 \<longleftrightarrow> n = 0 \<or> n = Suc 0 \<or> n = Suc (Suc 0) \<or> n = Suc (Suc (Suc 0))"
  by auto

lemma lt3: "n < 3 \<longleftrightarrow> n = 0 \<or> n = Suc 0 \<or> n = Suc (Suc 0)"
  by auto

lemma set_key_fault:
  assumes "length key \<le> 80" "length val \<le> 200" "faults w = replicate n None @ Some e # fs" "n < 4"
  shows "set_key key val w = Raise e (w\<lparr>faults := fs,
           trace := trace w @ map Call (take (Suc n) [Prepare, BindParam, BindParam, Execute])\<rparr>)"
  using assms
  by (auto simp: lt4 set_key_def bnd_def prepare_def bind_param_def execute_def driver_def)

lemma delete_key_fault:
  assumes "faults w = replicate n None @ Some e # fs" "n < 3"
  shows "delete_key key w = Raise e (w\<lparr>faults := fs,
           trace := trace w @ map Call (take (Suc n) [Prepare, BindParam, Execute])\<rparr>)"
  using assms
  by (auto simp: lt3 delete_key_def bnd_def prepare_def bind_param_def execute_def driver_def)

lemma get_key_fault:
  assumes "faults w = replicate n None @ Some e # fs" "n < 3 \<or> (n = 3 \<and> table w \<noteq> None)"
  shows "get_key key w = Raise e (w\<lparr>faults := fs,
           trace := trace w @ map Call (take (Suc n) [Prepare, BindParam, Execute, FetchAssoc])\<rparr>)"
proof -
  from assms(2) consider "n = 0" | "n = Suc 0" | "n = Suc (Suc 0)"
    | "n = Suc (Suc (Suc 0))" "table w \<noteq> None"
    by atomize_elim (auto simp: numeral_3_eq_3 less_Suc_eq)
  then show ?thesis
  proof cases
    case 1
    with assms(1) show ?thesis
      by (simp add: get_key_def bnd_def prepare_def driver_def)
  next
    case 2
    with assms(1) show ?thesis
      by (simp add: get_key_def bnd_def prepare_def bind_param_def driver_def)
  next
    case 3
    with assms(1) show ?thesis
      by (simp add: get_key_def bnd_def prepare_def bind_param_def execute_def driver_def)
  next
    case 4
    then obtain rows where "table w = Some rows" by auto
    with 4 assms(1) show ?thesis
      by (simp add: get_key_def bnd_def prepare_def bind_param_def execute_def driver_def
          fetch_assoc_def run_def exec_sql_def)
  qed
qed

lemma fetch_assoc_fail:
  "faults w = Some e # fs \<Longrightarrow>
     fetch_assoc st w = Raise e (w\<lparr>faults := fs, trace := trace w @ [Call FetchAssoc]\<rparr>)"
  by (simp add: fetch_assoc_def bnd_def driver_def)

lemma fetch_assoc_pass:
  "faults w = None # fs' \<Longrightarrow>
     fetch_assoc st w =
       (case cursor st of
          [] \<Rightarrow> Ok (None, st) (w\<lparr>faults := fs', trace := trace w @ [Call FetchAssoc]\<rparr>)
        | d # ds \<Rightarrow> Ok (Some d, st\<lparr>cursor := ds\<rparr>) (w\<lparr>faults := fs', trace := trace w @ [Call FetchAssoc]\<rparr>))"
  by (simp add: fetch_assoc_def bnd_def driver_def split: list.splits)

lemma while_row_fault:
  "faults w = replicate n None @ Some e # fs \<Longrightarrow> cursor st = map kv rs \<Longrightarrow> n \<le> length rs \<Longrightarrow>
     while_row (Some (kv y)) st acc w =
       Raise e (w\<lparr>faults := fs, trace := trace w @ replicate (Suc n) (Call FetchAssoc)\<rparr>)"
proof (induction n arbitrary: w st rs y acc)
  case 0
  then show ?case by (simp add: getitem_kv fetch_assoc_fail)
next
  case (Suc n)
  from Suc.prems(2,3) obtain z zs where rs: "rs = z # zs" by (cases rs) auto
  let ?w = "w\<lparr>faults := replicate n None @ Some e # fs, trace := trace w @ [Call FetchAssoc]\<rparr>"
  let ?st = "st\<lparr>cursor := map kv zs\<rparr>"
  from Suc.prems rs have f: "fetch_assoc st w = Ok (Some (kv z), ?st) ?w"
    by (simp add: fetch_assoc_pass)
  from Suc.prems rs have "while_row (Some (kv z)) ?st (acc @ [y]) ?w =
       Raise e (?w\<lparr>faults := fs, trace := trace ?w @ replicate (Suc n) (Call FetchAssoc)\<rparr>)"
    by (intro Suc.IH [where rs = zs]) simp_all
  with f show ?case by (simp add: getitem_kv replicate_append_same)
qed


lemma fetch_phase_fault:
  assumes "faults w = replicate m None @ Some e # fs" "cursor st = map kv rs" "m \<le> length rs"
  shows "bnd (fetch_assoc st) (\<lambda>(r, st). while_row r st []) w =
           Raise e (w\<lparr>faults := fs, trace := trace w @ replicate (Suc m) (Call FetchAssoc)\<rparr>)"
proof (cases m)
  case 0
  with assms show ?thesis by (simp add: bnd_def fetch_assoc_fail)
next
  case (Suc k)
  with assms(2,3) obtain y ys where rs: "rs = y # ys" by (cases rs) auto
  let ?w = "w\<lparr>faults := replicate k None @ Some e # fs, trace := trace w @ [Call FetchAssoc]\<rparr>"
  let ?st = "st\<lparr>cursor := map kv ys\<rparr>"
  from assms Suc rs have f: "fetch_assoc st w = Ok (Some (kv y), ?st) ?w"
    by (simp add: fetch_assoc_pass)
  from assms Suc rs have "while_row (Some (kv y)) ?st [] ?w =
       Raise e (?w\<lparr>faults := fs, trace := trace ?w @ replicate (Suc k) (Call FetchAssoc)\<rparr>)"
    by (intro while_row_fault [where rs = ys]) simp_all
  with f Suc show ?thesis by (simp add: bnd_def replicate_append_same del: while_row.simps)
qed

lemma list_all_db_fault:
  assumes "faults w = replicate n None @ Some e # fs"
    and "n < length (ExecImmediate # (case table w of None \<Rightarrow> [] | Some rows \<Rightarrow> replicate (Suc (length rows)) FetchAssoc))"
  shows "list_all_db w = Raise e (w\<lparr>faults := fs, trace := trace w @ map Call (take (Suc n)
           (ExecImmediate # (case table w of None \<Rightarrow> [] | Some rows \<Rightarrow> replicate (Suc (length rows)) FetchAssoc)))\<rparr>)"
proof (cases n)
  case 0
  with assms(1) show ?thesis
    by (simp add: list_all_db_def bnd_def exec_immediate_def driver_def)
next
  case (Suc m)
  with assms(2) obtain rows where rows: "table w = Some rows" and m: "m \<le> length rows"
    by (cases "table w") auto
  let ?w = "w\<lparr>faults := replicate m None @ Some e # fs, trace := trace w @ [Call ExecImmediate]\<rparr>"
  let ?st = "\<lparr>query = SelectAll, params = [], cursor = map kv (sort_key fst rows)\<rparr>"
  from assms(1) Suc rows have x: "exec_immediate SelectAll w = Ok ?st ?w"
    by (simp add: exec_immediate_def bnd_def driver_def run_def exec_sql_def)
  have "bnd (fetch_assoc ?st) (\<lambda>(r, st). while_row r st []) ?w =
          Raise e (?w\<lparr>faults := fs, trace := trace ?w @ replicate (Suc m) (Call FetchAssoc)\<rparr>)"
    using m by (intro fetch_phase_fault [where rs = "sort_key fst rows"]) simp_all
  with x Suc rows m show ?thesis
    unfolding list_all_db_def by (subst bnd_def) (simp add: min_absorb1)
qed

lemma search_keys_fault:
  assumes "faults w = replicate n None @ Some e # fs"
    and "n < length ([Prepare, BindParam, Execute] @ (case table w of None \<Rightarrow> []
           | Some rows \<Rightarrow> replicate (Suc (length (filter (\<lambda>r. like (fst r) p) rows))) FetchAssoc))"
  shows "search_keys p w = Raise e (w\<lparr>faults := fs, trace := trace w @ map Call (take (Suc n)
           ([Prepare, BindParam, Execute] @ (case table w of None \<Rightarrow> []
           | Some rows \<Rightarrow> replicate (Suc (length (filter (\<lambda>r. like (fst r) p) rows))) FetchAssoc)))\<rparr>)"
proof -
  consider "n = 0" | "n = Suc 0" | "n = Suc (Suc 0)" | m where "n = Suc (Suc (Suc m))"
    by atomize_elim presburger
  then show ?thesis
  proof cases
    case 1
    with assms(1) show ?thesis
      by (simp add: search_keys_def bnd_def prepare_def driver_def)
  next
    case 2
    with assms(1) show ?thesis
      by (simp add: search_keys_def bnd_def prepare_def bind_param_def driver_def)
  next
    case 3
    with assms(1) show ?thesis
      by (simp add: search_keys_def bnd_def prepare_def bind_param_def execute_def driver_def)
  next
    case (4 m)
    let ?rs = "\<lambda>rows. sort_key fst (filter (\<lambda>r. like (fst r) p) rows)"
    from 4 assms(2) obtain rows where rows: "table w = Some rows"
      and m: "m \<le> length (?rs rows)"
      by (cases "table w") auto
    let ?w1 = "w\<lparr>faults := replicate (Suc (Suc m)) None @ Some e # fs, trace := trace w @ [Call Prepare]\<rparr>"
    let ?w2 = "w\<lparr>faults := replicate (Suc m) None @ Some e # fs, trace := trace w @ [Call Prepare, Call BindParam]\<rparr>"
    let ?w3 = "w\<lparr>faults := replicate m None @ Some e # fs, trace := trace w @ [Call Prepare, Call BindParam, Call Execute]\<rparr>"
    let ?sa = "\<lparr>query = SelectLike, params = [], cursor = []\<rparr>"
    let ?sb = "\<lparr>query = SelectLike, params = [(1, p)], cursor = []\<rparr>"
    let ?sc = "\<lparr>query = SelectLike, params = [(1, p)], cursor = map kv (?rs rows)\<rparr>"
    from assms(1) 4 have a: "prepare SelectLike w = Ok ?sa ?w1"
      by (simp add: prepare_def bnd_def driver_def)
    have b: "bind_param ?sa 1 p ?w1 = Ok ?sb ?w2"
      by (simp add: bind_param_def bnd_def driver_def)
    from rows have c: "execute ?sb ?w2 = Ok ?sc ?w3"
      by (simp add: execute_def bnd_def driver_def run_def exec_sql_def)
    have d: "bnd (fetch_assoc ?sc) (\<lambda>(r, st). while_row r st []) ?w3 =
          Raise e (?w3\<lparr>faults := fs, trace := trace ?w3 @ replicate (Suc m) (Call FetchAssoc)\<rparr>)"
      using m by (intro fetch_phase_fault [where rs = "?rs rows"]) simp_all
    have "search_keys p w = bnd (fetch_assoc ?sc) (\<lambda>(r, st). while_row r st []) ?w3"
      unfolding search_keys_def
      by (subst bnd_def, simp only: a res.case, subst bnd_def, simp only: b res.case,
          subst bnd_def, simp only: c res.case)
    with d 4 rows m show ?thesis by (simp add: min_absorb1)
  qed
qed


lemma dispatch_fault:
  assumes "store_command parts" "faults w = replicate n None @ Some e # fs"
    and "n < length (driver_calls parts (table w))"
  shows "dispatch parts w =
           Raise e (w\<lparr>faults := fs, trace := trace w @ map Call (take (Suc n) (driver_calls parts (table w)))\<rparr>)"
proof -
  from assms(1) obtain p0 ps where parts: "parts = p0 # ps"
    by (cases parts) (simp_all add: store_command_def)
  from assms(1) parts consider
      (set) "lower p0 = ''set''" "3 \<le> length parts" "length (parts ! 1) \<le> 80" "length (parts ! 2) \<le> 200"
    | (get) "lower p0 = ''get''" "2 \<le> length parts"
    | (del) "lower p0 = ''del''" "2 \<le> length parts"
    | (list) "lower p0 = ''list''"
    | (find) "lower p0 = ''find''" "2 \<le> length parts"
    unfolding store_command_def by (auto simp: Let_def)
  then show ?thesis
  proof cases
    case set
    with assms(3) parts have n: "n < 4" by (simp add: driver_calls_def)
    from set_key_fault [OF set(3,4) assms(2) n] set parts show ?thesis
      by (auto simp: dispatch_def driver_calls_def bnd_def)
  next
    case get
    with assms(3) parts have n: "n < 3 \<or> (n = 3 \<and> table w \<noteq> None)"
      by (cases "table w") (auto simp: driver_calls_def)
    from get_key_fault [OF assms(2) n, of "parts ! 1"] get parts n show ?thesis
      by (cases "table w") (auto simp: dispatch_def driver_calls_def bnd_def lt3)
  next
    case del
    with assms(3) parts have n: "n < 3" by (simp add: driver_calls_def)
    from delete_key_fault [OF assms(2) n, of "parts ! 1"] del parts show ?thesis
      by (auto simp: dispatch_def driver_calls_def bnd_def)
  next
    case list
    with assms(3) parts
    have n: "n < length (ExecImmediate # (case table w of None \<Rightarrow> [] | Some rows \<Rightarrow> replicate (Suc (length rows)) FetchAssoc))"
      by (simp add: driver_calls_def)
    from list_all_db_fault [OF assms(2) n] list parts show ?thesis
      by (auto simp: dispatch_def driver_calls_def bnd_def)
  next
    case find
    with assms(3) parts
    have n: "n < length ([Prepare, BindParam, Execute] @ (case table w of None \<Rightarrow> []
           | Some rows \<Rightarrow> replicate (Suc (length (filter (\<lambda>r. like (fst r) (parts ! 1)) rows))) FetchAssoc))"
      by (simp add: driver_calls_def cong: option.case_cong)
    from search_keys_fault [OF assms(2) n] find parts show ?thesis
      by (auto simp: dispatch_def driver_calls_def bnd_def cong: option.case_cong)
  qed
qed

lemma dispatch_no_table:
  assumes "store_command parts" "table w = None" "faults w = []"
  shows "dispatch parts w =
           Raise undefined_name (w\<lparr>trace := trace w @ map Call (driver_calls parts None)\<rparr>)"
proof -
  from assms(1) obtain p0 ps where parts: "parts = p0 # ps"
    by (cases parts) (simp_all add: store_command_def)
  from assms(1) parts consider
      (set) "lower p0 = ''set''" "3 \<le> length parts" "length (parts ! 1) \<le> 80" "length (parts ! 2) \<le> 200"
    | (get) "lower p0 = ''get''" "2 \<le> length parts"
    | (del) "lower p0 = ''del''" "2 \<le> length parts"
    | (list) "lower p0 = ''list''"
    | (find) "lower p0 = ''find''" "2 \<le> length parts"
    unfolding store_command_def by (auto simp: Let_def)
  then show ?thesis
  proof cases
    case set
    with parts assms(2,3) show ?thesis
      by (auto simp: dispatch_def driver_calls_def set_key_def nofault_defs)
  next
    case get
    with parts assms(2,3) show ?thesis
      by (auto simp: dispatch_def driver_calls_def get_key_def nofault_defs)
  next
    case del
    with parts assms(2,3) show ?thesis
      by (auto simp: dispatch_def driver_calls_def delete_key_def nofault_defs)
  next
    case list
    with parts assms(2,3) show ?thesis
      by (auto simp: dispatch_def driver_calls_def list_all_db_def nofault_defs)
  next
    case find
    with parts assms(2,3) show ?thesis
      by (auto simp: dispatch_def driver_calls_def search_keys_def nofault_defs)
  qed
qed

lemma calls_append: "calls (xs @ ys) = calls xs @ calls ys"
  by (simp add: calls_def)

lemma calls_simps:
  "calls [] = []" "calls (Call a # tr) = a # calls tr"
  "calls (Print s # tr) = calls tr" "calls (Prompt s # tr) = calls tr"
  by (simp_all add: calls_def)

lemma calls_replicate: "calls (replicate k (Call a)) = replicate k a"
  by (induction k) (simp_all add: calls_simps)

lemma calls_prints: "calls (trace (foldl (\<lambda>w s. print_line s w) w xs)) = calls (trace w)"
  by (induction xs arbitrary: w) (simp_all add: print_line_def calls_append calls_simps)

lemma calls_print_table: "calls (trace (print_table rows w)) = calls (trace w)"
proof (cases "rows = []")
  case True
  then show ?thesis
    by (simp add: print_table_def print_line_def calls_append calls_simps)
next
  case False
  then show ?thesis
    unfolding print_table_def Let_def by (simp only: if_False) (rule calls_prints)
qed

lemma while_row_nofault_trace:
  "faults w = [] \<Longrightarrow> cursor st = map kv rs \<Longrightarrow>
     while_row (Some (kv y)) st acc w =
       Ok (acc @ y # rs) (w\<lparr>trace := trace w @ replicate (Suc (length rs)) (Call FetchAssoc)\<rparr>)"
proof (induction rs arbitrary: st acc w y)
  case Nil
  then show ?case by (simp add: getitem_kv fetch_assoc_def bnd_def driver_def)
next
  case (Cons z zs)
  let ?w = "w\<lparr>trace := trace w @ [Call FetchAssoc]\<rparr>"
  let ?sa = "st\<lparr>cursor := map kv zs\<rparr>"
  have f: "fetch_assoc st w = Ok (Some (kv z), ?sa) ?w"
    using Cons.prems by (simp add: fetch_assoc_def bnd_def driver_def)
  have "while_row (Some (kv z)) ?sa (acc @ [y]) ?w =
          Ok ((acc @ [y]) @ z # zs) (?w\<lparr>trace := trace ?w @ replicate (Suc (length zs)) (Call FetchAssoc)\<rparr>)"
    using Cons.prems by (intro Cons.IH) simp_all
  with f show ?case by (simp add: getitem_kv replicate_append_same)
qed

lemma fetch_phase_nofault:
  assumes "faults w = []" "cursor st = map kv rs"
  shows "bnd (fetch_assoc st) (\<lambda>(r, st). while_row r st []) w =
           Ok rs (w\<lparr>trace := trace w @ replicate (Suc (length rs)) (Call FetchAssoc)\<rparr>)"
proof (cases rs)
  case Nil
  with assms show ?thesis by (simp add: bnd_def fetch_assoc_def driver_def)
next
  case (Cons y ys)
  let ?w = "w\<lparr>trace := trace w @ [Call FetchAssoc]\<rparr>"
  let ?sa = "st\<lparr>cursor := map kv ys\<rparr>"
  from assms Cons have f: "fetch_assoc st w = Ok (Some (kv y), ?sa) ?w"
    by (simp add: fetch_assoc_def bnd_def driver_def)
  from assms have "while_row (Some (kv y)) ?sa [] ?w =
          Ok ([] @ y # ys) (?w\<lparr>trace := trace ?w @ replicate (Suc (length ys)) (Call FetchAssoc)\<rparr>)"
    by (intro while_row_nofault_trace) simp_all
  with f Cons show ?thesis by (simp add: bnd_def replicate_append_same del: while_row.simps)
qed

lemma dispatch_nofault_calls:
  assumes "store_command parts" "faults w = []" "table w = Some rows"
  shows "\<exists>w'. dispatch parts w = Ok Continue w' \<and>
           calls (trace w') = calls (trace w) @ driver_calls parts (Some rows)"
proof -
  from assms(1) obtain p0 ps where parts: "parts = p0 # ps"
    by (cases parts) (simp_all add: store_command_def)
  from assms(1) parts consider
      (set) "lower p0 = ''set''" "3 \<le> length parts" "length (parts ! 1) \<le> 80" "length (parts ! 2) \<le> 200"
    | (get) "lower p0 = ''get''" "2 \<le> length parts"
    | (del) "lower p0 = ''del''" "2 \<le> length parts"
    | (list) "lower p0 = ''list''"
    | (find) "lower p0 = ''find''" "2 \<le> length parts"
    unfolding store_command_def by (auto simp: Let_def)
  then show ?thesis
  proof cases
    case set
    from set_key_nofault [OF set(3,4) assms(2,3)] set parts show ?thesis
      by (auto simp: dispatch_def driver_calls_def bnd_def calls_append calls_simps)
  next
    case get
    from get_key_nofault [OF assms(2,3), of "parts ! 1"] get parts show ?thesis
      by (auto simp: dispatch_def driver_calls_def bnd_def calls_append calls_simps print_line_def
          split: option.splits)
  next
    case del
    from delete_key_nofault [OF assms(2,3), of "parts ! 1"] del parts show ?thesis
      by (auto simp: dispatch_def driver_calls_def bnd_def calls_append calls_simps)
  next
    case list
    let ?sa = "\<lparr>query = SelectAll, params = [], cursor = map kv (sort_key fst rows)\<rparr>"
    let ?w = "w\<lparr>trace := trace w @ [Call ExecImmediate]\<rparr>"
    from assms(2,3) have x: "exec_immediate SelectAll w = Ok ?sa ?w"
      by (simp add: exec_immediate_def bnd_def driver_def run_def exec_sql_def)
    from assms(2) have "bnd (fetch_assoc ?sa) (\<lambda>(r, st). while_row r st []) ?w =
          Ok (sort_key fst rows) (?w\<lparr>trace := trace ?w @ replicate (Suc (length (sort_key fst rows))) (Call FetchAssoc)\<rparr>)"
      by (intro fetch_phase_nofault) simp_all
    with x have "list_all_db w = Ok (sort_key fst rows)
        (w\<lparr>trace := trace w @ Call ExecImmediate # replicate (Suc (length rows)) (Call FetchAssoc)\<rparr>)"
      unfolding list_all_db_def by (subst bnd_def) simp
    with list parts show ?thesis
      by (auto simp: dispatch_def driver_calls_def bnd_def calls_append calls_simps calls_replicate
          calls_print_table)
  next
    case find
    let ?rs = "sort_key fst (filter (\<lambda>r. like (fst r) (parts ! 1)) rows)"
    let ?sa = "\<lparr>query = SelectLike, params = [], cursor = []\<rparr>"
    let ?sb = "\<lparr>query = SelectLike, params = [(1, parts ! 1)], cursor = []\<rparr>"
    let ?sc = "\<lparr>query = SelectLike, params = [(1, parts ! 1)], cursor = map kv ?rs\<rparr>"
    let ?w1 = "w\<lparr>trace := trace w @ [Call Prepare]\<rparr>"
    let ?w2 = "w\<lparr>trace := trace w @ [Call Prepare, Call BindParam]\<rparr>"
    let ?w3 = "w\<lparr>trace := trace w @ [Call Prepare, Call BindParam, Call Execute]\<rparr>"
    from assms(2) have a: "prepare SelectLike w = Ok ?sa ?w1"
      by (simp add: prepare_def bnd_def driver_def)
    from assms(2) have b: "bind_param ?sa 1 (parts ! 1) ?w1 = Ok ?sb ?w2"
      by (simp add: bind_param_def bnd_def driver_def)
    from assms(2,3) have c: "execute ?sb ?w2 = Ok ?sc ?w3"
      by (simp add: execute_def bnd_def driver_def run_def exec_sql_def)
    from assms(2) have d: "bnd (fetch_assoc ?sc) (\<lambda>(r, st). while_row r st []) ?w3 =
          Ok ?rs (?w3\<lparr>trace := trace ?w3 @ replicate (Suc (length ?rs)) (Call FetchAssoc)\<rparr>)"
      by (intro fetch_phase_nofault) simp_all
    have "search_keys (parts ! 1) w = bnd (fetch_assoc ?sc) (\<lambda>(r, st). while_row r st []) ?w3"
      unfolding search_keys_def
      by (subst bnd_def, simp only: a res.case, subst bnd_def, simp only: b res.case,
          subst bnd_def, simp only: c res.case)
    with d have "search_keys (parts ! 1) w = Ok ?rs
        (w\<lparr>trace := trace w @ [Call Prepare, Call BindParam, Call Execute] @
           replicate (Suc (length (filter (\<lambda>r. like (fst r) (parts ! 1)) rows))) (Call FetchAssoc)\<rparr>)"
      by simp
    with find parts show ?thesis
      by (auto simp: dispatch_def driver_calls_def bnd_def calls_append calls_simps calls_replicate
          calls_print_table cong: option.case_cong)
  qed
qed

lemma store_command_line: "store_command (split_ws 2 (strip line)) \<Longrightarrow> strip line \<noteq> []"
  by (auto simp: store_command_def numeral_2_eq_2)

text \<open>
  C4, as the program has it. An exception raised while a command runs is not caught at
  the dispatcher. For every line that is a command of \<open>set\<close>, \<open>get\<close>, \<open>del\<close>, \<open>list\<close> or
  \<open>find\<close>, in every state of the loop: when any one of the driver calls the command makes
  (prepare, bind, execute, and each fetch) raises an exception, or when the database
  rejects the statement because the table does not exist, the command loop ends with
  that exception, having printed nothing after the prompt and whatever input follows; the
  trace holds the prompt and the driver calls up to the failing one. The loop passes on
  whatever exception \<open>dispatch\<close> raises; and when the command loop of a session ends with
  an exception, the session ends with an exception too, after one call of
  \<open>ibm_db.close\<close> (with the same exception, unless the close fails).
\<close>

theorem query_error_ends_session:
  "(store_command (split_ws 2 (strip line)) \<and> faults w = replicate n None @ Some e # fs \<and>
    n < length (driver_calls (split_ws 2 (strip line)) (table w)) \<longrightarrow>
      repl_loop (Line line # rest) w =
        Raise e (w\<lparr>faults := fs, trace := trace w @ Prompt ''db2-meta> '' #
                   map Call (take (Suc n) (driver_calls (split_ws 2 (strip line)) (table w)))\<rparr>)) \<and>
   (store_command (split_ws 2 (strip line)) \<and> table w = None \<and> faults w = [] \<longrightarrow>
      repl_loop (Line line # rest) w =
        Raise undefined_name (w\<lparr>trace := trace w @ Prompt ''db2-meta> '' #
                   map Call (driver_calls (split_ws 2 (strip line)) None)\<rparr>)) \<and>
   (strip line \<noteq> [] \<and> dispatch (split_ws 2 (strip line)) (prompt w) = Raise e w' \<longrightarrow>
      repl_loop (Line line # rest) w = Raise e w') \<and>
   (DB2Connections_enter dsn_config w0 = Ok u w1 \<and> repl inputs w1 = Raise e w2 \<longrightarrow>
      (\<exists>e' w3. with_connection dsn_config inputs w0 = Raise e' w3 \<and>
          closes w3 = Suc (closes w2) \<and> (faults w2 = [] \<longrightarrow> e' = e)))"
proof (intro conjI impI)
  assume a: "store_command (split_ws 2 (strip line)) \<and> faults w = replicate n None @ Some e # fs \<and>
    n < length (driver_calls (split_ws 2 (strip line)) (table w))"
  then have s: "store_command (split_ws 2 (strip line))"
    and f: "faults (prompt w) = replicate n None @ Some e # fs"
    and n: "n < length (driver_calls (split_ws 2 (strip line)) (table (prompt w)))"
    by (simp_all add: prompt_def)
  from dispatch_fault [OF s f n] store_command_line [OF s]
  show "repl_loop (Line line # rest) w =
        Raise e (w\<lparr>faults := fs, trace := trace w @ Prompt ''db2-meta> '' #
                   map Call (take (Suc n) (driver_calls (split_ws 2 (strip line)) (table w)))\<rparr>)"
    by (simp add: prompt_def)
next
  assume a: "store_command (split_ws 2 (strip line)) \<and> table w = None \<and> faults w = []"
  then have s: "store_command (split_ws 2 (strip line))"
    and t: "table (prompt w) = None" and f: "faults (prompt w) = []"
    by (simp_all add: prompt_def)
  from dispatch_no_table [OF s t f] store_command_line [OF s]
  show "repl_loop (Line line # rest) w =
        Raise undefined_name (w\<lparr>trace := trace w @ Prompt ''db2-meta> '' #
                   map Call (driver_calls (split_ws 2 (strip line)) None)\<rparr>)"
    by (simp add: prompt_def)
next
  assume "strip line \<noteq> [] \<and> dispatch (split_ws 2 (strip line)) (prompt w) = Raise e w'"
  then show "repl_loop (Line line # rest) w = Raise e w'" by simp
next
  assume a: "DB2Connections_enter dsn_config w0 = Ok u w1 \<and> repl inputs w1 = Raise e w2"
  show "\<exists>e' w3. with_connection dsn_config inputs w0 = Raise e' w3 \<and>
          closes w3 = Suc (closes w2) \<and> (faults w2 = [] \<longrightarrow> e' = e)"
  proof (cases "DB2Connections_exit w2")
    case (Ok u3 w3)
    with a exit_closes [of w2] show ?thesis
      by (simp add: with_connection_def with_body_def)
  next
    case (Raise e' w3)
    with a exit_closes [of w2] exit_faults [of w2] show ?thesis
      by (auto simp: with_connection_def with_body_def)
  qed
qed

theorem query_error_ends_session_witness:
  "store_command (split_ws 2 (strip ''find a%'')) \<and>
   Suc (Suc 0) < length (driver_calls (split_ws 2 (strip ''find a%'')) (Some [])) \<and>
   repl_loop [Line ''find a%'', Line ''set a 1'']
     \<lparr>table = Some [], faults = [None, None, Some (Exception ''SQL0952N  Processing was cancelled due to an interrupt.  SQLSTATE=57014 SQLCODE=-952'')], trace = []\<rparr> =
   Raise (Exception ''SQL0952N  Processing was cancelled due to an interrupt.  SQLSTATE=57014 SQLCODE=-952'')
     \<lparr>table = Some [], faults = [],
      trace = [Prompt ''db2-meta> '', Call Prepare, Call BindParam, Call Execute]\<rparr>"
  using query_error_ends_session [where line = "''find a%''"
      and w = "\<lparr>table = Some [], faults = [None, None, Some (Exception ''SQL0952N  Processing was cancelled due to an interrupt.  SQLSTATE=57014 SQLCODE=-952'')], trace = []\<rparr>"
      and n = "Suc (Suc 0)" and e = "Exception ''SQL0952N  Processing was cancelled due to an interrupt.  SQLSTATE=57014 SQLCODE=-952''" and fs = "[]" and rest = "[Line ''set a 1'']"]
  by (simp add: store_command_def driver_calls_def strip_def is_space_def lower_def lower_char_def
      char_of_def bit_0 numeral_2_eq_2)

lemma dropWhile_token:
  "c \<noteq> [] \<Longrightarrow> \<forall>x\<in>set c. \<not> is_space x \<Longrightarrow> dropWhile is_space (c @ t) = c @ t"
  by (cases c) simp_all

lemma dropWhile_append_keep:
  "dropWhile P ys = ys \<Longrightarrow> dropWhile P (xs @ ys) = dropWhile P xs @ ys"
  by (induction xs) simp_all

lemma strip_token:
  assumes "c \<noteq> []" "\<forall>x\<in>set c. \<not> is_space x"
  shows "strip (c @ t) = c @ rev (dropWhile is_space (rev t))"
proof -
  from assms have "dropWhile is_space (rev c) = rev c"
    by (cases "rev c") (auto simp: dropWhile_eq_Cons_conv)
  then have "dropWhile is_space (rev t @ rev c) = dropWhile is_space (rev t) @ rev c"
    by (rule dropWhile_append_keep)
  with assms show ?thesis
    by (simp add: strip_def dropWhile_token)
qed

lemma rstrip_head:
  "t = [] \<or> is_space (hd t) \<Longrightarrow>
     rev (dropWhile is_space (rev t)) = [] \<or> is_space (hd (rev (dropWhile is_space (rev t))))"
proof (cases "rev (dropWhile is_space (rev t))")
  case Nil
  then show ?thesis by simp
next
  case (Cons a as)
  have "rev t = takeWhile is_space (rev t) @ dropWhile is_space (rev t)" by simp
  then have "t = rev (dropWhile is_space (rev t)) @ rev (takeWhile is_space (rev t))"
    by (metis rev_append rev_rev_ident)
  with Cons have "t = a # as @ rev (takeWhile is_space (rev t))" by simp
  then have "t \<noteq> []" "hd t = a" by (metis list.distinct(1), metis list.sel(1))
  moreover assume "t = [] \<or> is_space (hd t)"
  ultimately show ?thesis using Cons by simp
qed

lemma split_token:
  assumes "c \<noteq> []" "\<forall>x\<in>set c. \<not> is_space x" "t = [] \<or> is_space (hd t)"
  shows "split_ws (Suc n) (c @ t) = c # split_ws n t"
proof -
  from assms(3) have "takeWhile (\<lambda>x. \<not> is_space x) (c @ t) = c" "dropWhile (\<lambda>x. \<not> is_space x) (c @ t) = t"
    using assms(2) by (cases t; simp)+
  with assms show ?thesis
    by (simp add: dropWhile_token Let_def)
qed

lemma dispatch_lower: "lower c1 = lower c2 \<Longrightarrow> dispatch (c1 # args) w = dispatch (c2 # args) w"
  by (simp add: dispatch_def Let_def cong: option.case_cong)

lemma lower_Nil: "lower c = [] \<longleftrightarrow> c = []"
  by (simp add: lower_def)

text \<open>
  C10. Two input lines that differ only in their command word, the two words being equal
  after \<open>lower()\<close>, have the same effect in every state of the loop: the same calls, the
  same output, the same next state.
\<close>

theorem command_word_case_insensitive:
  assumes "lower c1 = lower c2" "c1 \<noteq> []"
    and "\<forall>x\<in>set c1. \<not> is_space x" "\<forall>x\<in>set c2. \<not> is_space x"
    and "t = [] \<or> is_space (hd t)"
  shows "repl_loop (Line (c1 @ t) # rest) w = repl_loop (Line (c2 @ t) # rest) w"
proof -
  let ?t = "rev (dropWhile is_space (rev t))"
  from assms(1,2) have c2: "c2 \<noteq> []" by (metis lower_Nil)
  have t: "?t = [] \<or> is_space (hd ?t)" by (rule rstrip_head [OF assms(5)])
  have s1: "strip (c1 @ t) = c1 @ ?t" by (rule strip_token [OF assms(2,3)])
  have s2: "strip (c2 @ t) = c2 @ ?t" by (rule strip_token [OF c2 assms(4)])
  have p1: "split_ws 2 (c1 @ ?t) = c1 # split_ws 1 ?t"
    using split_token [OF assms(2,3) t, of 1] by (simp add: numeral_2_eq_2)
  have p2: "split_ws 2 (c2 @ ?t) = c2 # split_ws 1 ?t"
    using split_token [OF c2 assms(4) t, of 1] by (simp add: numeral_2_eq_2)
  from assms(2) c2 show ?thesis
    by (simp add: s1 s2 p1 p2 dispatch_lower [OF assms(1)])
qed

theorem command_word_case_insensitive_witness:
  "lower ''SET'' = lower ''set'' \<and> lower ''Set'' = lower ''set'' \<and>
   repl_loop [Line ''SET a 1''] \<lparr>table = Some [], faults = [], trace = []\<rparr> = repl_loop [Line ''set a 1''] \<lparr>table = Some [], faults = [], trace = []\<rparr> \<and>
   repl_loop [Line ''Set a 1''] \<lparr>table = Some [], faults = [], trace = []\<rparr> = repl_loop [Line ''set a 1''] \<lparr>table = Some [], faults = [], trace = []\<rparr>"
proof -
  have l1: "lower ''SET'' = lower ''set''" and l2: "lower ''Set'' = lower ''set''"
    by (simp_all add: lower_def lower_char_def char_of_def bit_0)
  have t: "'' a 1'' = [] \<or> is_space (hd '' a 1'')" by (simp add: is_space_def)
  have n1: "\<forall>x\<in>set ''SET''. \<not> is_space x" and n2: "\<forall>x\<in>set ''Set''. \<not> is_space x"
    and n3: "\<forall>x\<in>set ''set''. \<not> is_space x" by (simp_all add: is_space_def)
  from command_word_case_insensitive [OF l1 _ n1 n3 t, of "[]" "\<lparr>table = Some [], faults = [], trace = []\<rparr>"]
    command_word_case_insensitive [OF l2 _ n2 n3 t, of "[]" "\<lparr>table = Some [], faults = [], trace = []\<rparr>"] l1 l2
  show ?thesis by simp
qed

end
